theory Spec2Isabelle
  imports Main "HOL-Library.AList"
begin

section \<open>Module constants of configuration.py\<close>

definition NS_SEP :: char where
  "NS_SEP = CHR ''.''"

definition DEFAULT_NS :: string where
  "DEFAULT_NS = ''__DEFAULT''"

section \<open>The regular expressions and \<open>re.match\<close>\<close>

text \<open>
  The two patterns of the module use character classes, concatenation, \<open>?\<close>, \<open>*\<close> and
  a final \<open>$\<close>. A character class is a list of inclusive ranges of code points.
\<close>

datatype rexp =
    Class "(char \<times> char) list"
  | Seq rexp rexp
  | Opt rexp
  | Star rexp

definition in_class :: "(char \<times> char) list \<Rightarrow> char \<Rightarrow> bool" where
  "in_class rs c =
     list_ex (\<lambda>(lo, hi). (of_char lo :: nat) \<le> of_char c \<and> (of_char c :: nat) \<le> of_char hi) rs"

text \<open>
  \<open>steps r s\<close> lists what is left of \<open>s\<close> after each way the backtracking matcher can
  match \<open>r\<close> at the start of \<open>s\<close>, greedy alternatives first. A repetition only
  iterates again after an iteration that consumed input.
\<close>

function steps :: "rexp \<Rightarrow> string \<Rightarrow> string list" where
  "steps (Class rs) s = (case s of [] \<Rightarrow> [] | c # t \<Rightarrow> if in_class rs c then [t] else [])"
| "steps (Seq a b) s = concat (map (steps b) (steps a s))"
| "steps (Opt a) s = steps a s @ [s]"
| "steps (Star a) s =
     concat (map (steps (Star a)) (filter (\<lambda>t. length t < length s) (steps a s))) @ [s]"
  by pat_completeness auto
termination
  by (relation "measures [\<lambda>(r, s). size r, \<lambda>(r, s). length s]") auto

declare steps.simps(4) [simp del]

text \<open>
  \<open>re.match(p, s)\<close> for a pattern \<open>p\<close> that ends in \<open>$\<close>: the body of the pattern
  matches at the start of \<open>s\<close>, and \<open>$\<close> holds at the end of the string or just before
  a newline that is its last character.
\<close>

definition re_match_dollar :: "rexp \<Rightarrow> string \<Rightarrow> bool" where
  "re_match_dollar r s = list_ex (\<lambda>t. t = [] \<or> t = [CHR 0x0A]) (steps r s)"

definition class_alpha :: "(char \<times> char) list" where
  "class_alpha = [(CHR ''A'', CHR ''Z''), (CHR ''a'', CHR ''z'')]"

definition class_word :: "(char \<times> char) list" where
  "class_word = [(CHR ''_'', CHR ''_''), (CHR ''a'', CHR ''z''), (CHR ''A'', CHR ''Z''),
                 (CHR ''0'', CHR ''9'')]"

definition class_ualpha :: "(char \<times> char) list" where
  "class_ualpha = [(CHR ''_'', CHR ''_''), (CHR ''A'', CHR ''Z''), (CHR ''a'', CHR ''z'')]"

text \<open>\<^verbatim>\<open>VALID_NS_NAMES = "([A-Za-z][_a-zA-Z0-9]*)(\.?[_A-Za-z][_a-zA-Z0-9]*)*$"\<close>\<close>

definition VALID_NS_NAMES :: rexp where
  "VALID_NS_NAMES =
     Seq (Seq (Class class_alpha) (Star (Class class_word)))
         (Star (Seq (Opt (Class [(CHR ''.'', CHR ''.'')]))
                    (Seq (Class class_ualpha) (Star (Class class_word)))))"

text \<open>\<^verbatim>\<open>VALID_PROPERTY_NAMES = "[A-Za-z][_a-zA-Z0-9]*$"\<close>\<close>

definition VALID_PROPERTY_NAMES :: rexp where
  "VALID_PROPERTY_NAMES = Seq (Class class_alpha) (Star (Class class_word))"

definition ispropertynamevalid :: "string \<Rightarrow> bool" where
  "ispropertynamevalid name = (name \<noteq> [] \<and> re_match_dollar VALID_PROPERTY_NAMES name)"

definition isnsnamevalid :: "string \<Rightarrow> bool" where
  "isnsnamevalid name =
     (name \<noteq> [] \<and> (name = DEFAULT_NS \<or> re_match_dollar VALID_NS_NAMES name))"

section \<open>Python values and exceptions\<close>

text \<open>
  The values that flow through the module. A function value is \<open>PFun f\<close>; what calling
  it does is given by a host function \<open>call f args\<close>, which returns the result or the
  exception raised. Hooks do not touch the registry.
\<close>

datatype pyval =
    PNone
  | PBool bool
  | PInt int
  | PStr string
  | PList "pyval list"
  | PDict "(string \<times> pyval) list"
  | PFun nat

datatype exn =
    ConfigPropertyValueNotSet string
  | ConfigPropertyBadName string
  | ConfigPropertyNotFound string
  | ConfigNamespaceDuplicateProperty string
  | ConfigNamespaceBadName string
  | ConfigManagerBadVersion int
  | ConfigManagerDuplicateNamespace string
  | ConfigManagerMissingNamespace string
  | TypeError
  | AttributeError
  | KeyError string
  | UserException nat

type_synonym host = "nat \<Rightarrow> pyval list \<Rightarrow> exn + pyval"

fun truthy :: "pyval \<Rightarrow> bool" where
  "truthy PNone = False"
| "truthy (PBool b) = b"
| "truthy (PInt i) = (i \<noteq> 0)"
| "truthy (PStr s) = (s \<noteq> [])"
| "truthy (PList xs) = (xs \<noteq> [])"
| "truthy (PDict kvs) = (kvs \<noteq> [])"
| "truthy (PFun f) = True"

fun callable :: "pyval \<Rightarrow> bool" where
  "callable (PFun f) = True"
| "callable v = False"

text \<open>\<open>call_value call v args\<close>: the call \<open>v(*args)\<close> of a value known to be callable.\<close>

fun call_value :: "host \<Rightarrow> pyval \<Rightarrow> pyval list \<Rightarrow> exn + pyval" where
  "call_value call (PFun f) args = call f args"
| "call_value call v args = Inl TypeError"

section \<open>ConfigPropertyRecord and ConfigPropertyRecordExt\<close>

record proprec =
  rec_name :: string
  rec_value :: pyval
  rec_hasvalue :: bool
  rec_callback :: pyval
  rec_validate :: pyval

text \<open>
  A call \<open>f(a, b, **kwargs)\<close> whose keywords repeat a parameter that is already bound
  positionally: Python raises TypeError before the body of \<open>f\<close> runs.
\<close>

definition kw_clash :: "string list \<Rightarrow> (string \<times> 'v) list \<Rightarrow> bool" where
  "kw_clash params kwargs = list_ex (\<lambda>p. map_of kwargs p \<noteq> None) params"

text \<open>
  \<open>ConfigPropertyRecordExt.__init__(self, name, **kwargs)\<close> for a name that is a string.
\<close>

definition ConfigPropertyRecordExt_init :: "string \<Rightarrow> (string \<times> pyval) list \<Rightarrow> exn + proprec" where
  "ConfigPropertyRecordExt_init name kwargs =
     (if kw_clash [''self'', ''name''] kwargs then Inl TypeError
      else
        let callback = (case map_of kwargs ''callback'' of Some c \<Rightarrow> c | None \<Rightarrow> PNone);
            validate = (case map_of kwargs ''validate'' of Some v \<Rightarrow> v | None \<Rightarrow> PNone)
        in (case map_of kwargs ''value'' of
              Some v \<Rightarrow> Inr \<lparr>rec_name = name, rec_value = v, rec_hasvalue = True,
                            rec_callback = callback, rec_validate = validate\<rparr>
            | None \<Rightarrow> Inr \<lparr>rec_name = name, rec_value = PNone, rec_hasvalue = False,
                          rec_callback = callback, rec_validate = validate\<rparr>))"

text \<open>The getter of \<open>value\<close>.\<close>

definition get_value :: "proprec \<Rightarrow> exn + pyval" where
  "get_value r =
     (if \<not> rec_hasvalue r then Inl (ConfigPropertyValueNotSet (rec_name r))
      else Inr (rec_value r))"

text \<open>
  The setter of \<open>value\<close> in ConfigPropertyRecordExt. It returns the outcome together with
  the record as it is when the setter returns or raises.
\<close>

definition set_value :: "host \<Rightarrow> proprec \<Rightarrow> pyval \<Rightarrow> (exn + pyval) \<times> proprec" where
  "set_value call r v =
     (case (if truthy (rec_validate r) \<and> callable (rec_validate r)
            then call_value call (rec_validate r) [PStr (rec_name r), v] else Inr PNone) of
        Inl e \<Rightarrow> (Inl e, r)
      | Inr _ \<Rightarrow>
          (let r' = r\<lparr>rec_value := v, rec_hasvalue := True\<rparr> in
           (case (if truthy (rec_callback r') \<and> callable (rec_callback r')
                  then call_value call (rec_callback r') [PStr (rec_name r'), rec_value r']
                  else Inr PNone) of
              Inl e \<Rightarrow> (Inl e, r')
            | Inr _ \<Rightarrow> (Inr (rec_value r'), r'))))"

section \<open>ConfigNamespace\<close>

text \<open>
  A namespace is its attribute dictionary \<open>__dict__\<close>: \<open>self.name = nspc\<close> stores the
  name under the key \<open>name\<close>, and every property record is stored under its own name in
  the same dictionary. The methods are plain functions of the class, so an entry of
  \<open>__dict__\<close> with the name of a method shadows it: \<open>ns.m(...)\<close> then finds the entry,
  which is a string or a property record, and calling it raises TypeError.
\<close>

datatype attr = AName string | AProp proprec

type_synonym namespace = "(string \<times> attr) list"

text \<open>\<open>d.update(e)\<close> on insertion-ordered dictionaries.\<close>

definition dict_update :: "('k \<times> 'v) list \<Rightarrow> ('k \<times> 'v) list \<Rightarrow> ('k \<times> 'v) list" where
  "dict_update d e = fold (\<lambda>(k, v) acc. AList.update k v acc) e d"

definition has_key :: "('k \<times> 'v) list \<Rightarrow> 'k \<Rightarrow> bool" where
  "has_key d k = (map_of d k \<noteq> None)"

text \<open>The call \<open>ns.has_property(name)\<close>.\<close>

definition has_property :: "namespace \<Rightarrow> string \<Rightarrow> exn + bool" where
  "has_property ns name =
     (if has_key ns ''has_property'' then Inl TypeError
      else if \<not> ispropertynamevalid name then Inl (ConfigPropertyBadName name)
      else Inr (has_key ns name))"

text \<open>
  \<open>getattr(self, name)\<close>. The source calls it only for a name that is a key of
  \<open>__dict__\<close>, where the entry of the dictionary is what it returns.
\<close>

definition getattr :: "namespace \<Rightarrow> string \<Rightarrow> exn + attr" where
  "getattr ns name = (case map_of ns name of Some a \<Rightarrow> Inr a | None \<Rightarrow> Inl AttributeError)"

text \<open>The call \<open>ns.add_property(name, **kwargs)\<close>.\<close>

definition add_property :: "namespace \<Rightarrow> string \<Rightarrow> (string \<times> pyval) list \<Rightarrow> (exn + attr) \<times> namespace" where
  "add_property ns name kwargs =
     (if has_key ns ''add_property'' then (Inl TypeError, ns)
      else if kw_clash [''self'', ''name''] kwargs then (Inl TypeError, ns)
      else if \<not> ispropertynamevalid name then (Inl (ConfigPropertyBadName name), ns)
      else if has_key ns name then (Inl (ConfigNamespaceDuplicateProperty name), ns)
      else (case ConfigPropertyRecordExt_init name kwargs of
              Inl e \<Rightarrow> (Inl e, ns)
            | Inr prop \<Rightarrow>
                (let ns' = dict_update ns [(name, AProp prop)] in (getattr ns' name, ns'))))"

text \<open>
  The loop of \<open>add_properties\<close> over \<open>properties.items()\<close>: it fills the local
  dictionary \<open>props\<close> and reads \<open>self.__dict__\<close> without writing it.
\<close>

fun build_props :: "namespace \<Rightarrow> (string \<times> pyval) list \<Rightarrow> (string \<times> attr) list \<Rightarrow>
    exn + (string \<times> attr) list" where
  "build_props ns [] props = Inr props"
| "build_props ns ((name, defn) # rest) props =
     (if \<not> ispropertynamevalid name then Inl (ConfigPropertyBadName name)
      else if has_key ns name then Inl (ConfigNamespaceDuplicateProperty name)
      else (case (case defn of
                    PDict d \<Rightarrow> ConfigPropertyRecordExt_init name d
                  | _ \<Rightarrow> ConfigPropertyRecordExt_init name [(''value'', defn)]) of
              Inl e \<Rightarrow> Inl e
            | Inr prop \<Rightarrow> build_props ns rest (AList.update name (AProp prop) props)))"

text \<open>The last loop of \<open>add_properties\<close>: \<open>rtn[name] = getattr(self, name)\<close>.\<close>

fun collect_rtn :: "namespace \<Rightarrow> string list \<Rightarrow> (string \<times> attr) list \<Rightarrow> exn + (string \<times> attr) list" where
  "collect_rtn ns [] rtn = Inr rtn"
| "collect_rtn ns (name # rest) rtn =
     (case getattr ns name of
        Inl e \<Rightarrow> Inl e
      | Inr a \<Rightarrow> collect_rtn ns rest (AList.update name a rtn))"

text \<open>The call \<open>ns.add_properties(**kwargs)\<close>.\<close>

definition add_properties :: "namespace \<Rightarrow> (string \<times> pyval) list \<Rightarrow>
    (exn + (string \<times> attr) list) \<times> namespace" where
  "add_properties ns kwargs =
     (if has_key ns ''add_properties'' then (Inl TypeError, ns)
      else if kw_clash [''self''] kwargs then (Inl TypeError, ns)
      else
        (let properties = (case map_of kwargs ''properties'' of Some p \<Rightarrow> p | None \<Rightarrow> PDict kwargs)
         in (case properties of
               PDict items \<Rightarrow>
                 (case build_props ns items [] of
                    Inl e \<Rightarrow> (Inl e, ns)
                  | Inr props \<Rightarrow>
                      (if props \<noteq> [] then
                         (let ns' = dict_update ns props
                          in (collect_rtn ns' (map fst props) [], ns'))
                       else (Inr [], ns)))
             | _ \<Rightarrow> (Inl AttributeError, ns))))"

text \<open>\<open>ConfigNamespace.__init__(self, nspc, **kwargs)\<close>.\<close>

definition ConfigNamespace_init :: "string \<Rightarrow> (string \<times> pyval) list \<Rightarrow> exn + namespace" where
  "ConfigNamespace_init nspc kwargs =
     (if kw_clash [''self'', ''nspc''] kwargs then Inl TypeError
      else if \<not> isnsnamevalid nspc then Inl (ConfigNamespaceBadName nspc)
      else
        (let self = [(''name'', AName nspc)] in
         if kwargs \<noteq> [] then
           (case add_properties self kwargs of
              (Inl e, _) \<Rightarrow> Inl e
            | (Inr _, self') \<Rightarrow> Inr self')
         else Inr self))"

section \<open>ConfigurationManager\<close>

record manager =
  version :: int
  namespaces :: "(string \<times> namespace) list"

text \<open>\<open>s.rfind(c)\<close> for a one-character separator: the last index of \<open>c\<close>, or \<open>-1\<close>.\<close>

fun rfind :: "string \<Rightarrow> char \<Rightarrow> int" where
  "rfind [] c = - 1"
| "rfind (x # xs) c =
     (let r = rfind xs c in if 0 \<le> r then r + 1 else if x = c then 0 else - 1)"

text \<open>
  The loop of \<open>ConfigurationManager.__init__\<close> over \<open>namespaces.items()\<close>; \<open>**defn\<close>
  needs a mapping.
\<close>

fun build_namespaces :: "(string \<times> pyval) list \<Rightarrow> (string \<times> namespace) list \<Rightarrow>
    exn + (string \<times> namespace) list" where
  "build_namespaces [] nspc = Inr nspc"
| "build_namespaces ((name, defn) # rest) nspc =
     (case defn of
        PDict d \<Rightarrow>
          (case ConfigNamespace_init name d of
             Inl e \<Rightarrow> Inl e
           | Inr n \<Rightarrow> build_namespaces rest (AList.update name n nspc))
      | _ \<Rightarrow> Inl TypeError)"

definition ConfigurationManager_init :: "int \<Rightarrow> (string \<times> pyval) list \<Rightarrow> exn + manager" where
  "ConfigurationManager_init ver kwargs =
     (if kw_clash [''self'', ''version''] kwargs then Inl TypeError
      else if ver \<notin> set [1] then Inl (ConfigManagerBadVersion ver)
      else
        (let nss = (case map_of kwargs ''namespaces'' of Some p \<Rightarrow> p | None \<Rightarrow> PDict kwargs)
         in (case nss of
               PDict items \<Rightarrow>
                 (case build_namespaces items [] of
                    Inl e \<Rightarrow> Inl e
                  | Inr nspc \<Rightarrow>
                      (if \<not> has_key nspc DEFAULT_NS then
                         (case ConfigNamespace_init DEFAULT_NS [] of
                            Inl e \<Rightarrow> Inl e
                          | Inr d \<Rightarrow>
                              Inr \<lparr>version = ver,
                                   namespaces = dict_update [] (AList.update DEFAULT_NS d nspc)\<rparr>)
                       else Inr \<lparr>version = ver, namespaces = dict_update [] nspc\<rparr>))
             | _ \<Rightarrow> Inl AttributeError)))"

function parents :: "manager \<Rightarrow> string \<Rightarrow> string list" where
  "parents mgr nspc =
     (let rtn = (if has_key (namespaces mgr) nspc then [nspc] else []);
          i = rfind nspc NS_SEP
      in if i > - 1 then rtn @ parents mgr (take (nat i) nspc) else rtn)"
  by pat_completeness auto

lemma rfind_less_length: "rfind s c < int (length s)"
  by (induction s) (auto simp: Let_def)

termination parents
proof (relation "measure (\<lambda>(m, s). length s)")
  show "wf (measure (\<lambda>(m :: manager, s :: string). length s))"
    by simp
next
  fix mgr :: manager and nspc :: string and rtn :: "string list" and i :: int
  assume "i = rfind nspc NS_SEP" and "- 1 < i"
  then show "((mgr, take (nat i) nspc), (mgr, nspc)) \<in> measure (\<lambda>(m, s). length s)"
    using rfind_less_length [of nspc NS_SEP] by simp
qed

declare parents.simps [simp del]

definition parent_namespaces :: "manager \<Rightarrow> string \<Rightarrow> string list" where
  "parent_namespaces mgr nspc = parents mgr nspc @ [DEFAULT_NS]"

definition has_namespace :: "manager \<Rightarrow> string \<Rightarrow> exn + bool" where
  "has_namespace mgr nspc =
     (if \<not> isnsnamevalid nspc then Inl (ConfigNamespaceBadName nspc)
      else Inr (has_key (namespaces mgr) nspc))"

text \<open>\<open>d[k]\<close> on a dictionary.\<close>

definition subscript :: "(string \<times> 'v) list \<Rightarrow> string \<Rightarrow> exn + 'v" where
  "subscript d k = (case map_of d k of Some v \<Rightarrow> Inr v | None \<Rightarrow> Inl (KeyError k))"

definition add_namespace :: "manager \<Rightarrow> string \<Rightarrow> (string \<times> pyval) list \<Rightarrow>
    (exn + namespace) \<times> manager" where
  "add_namespace mgr nspc kwargs =
     (if kw_clash [''self'', ''nspc''] kwargs then (Inl TypeError, mgr)
      else if \<not> isnsnamevalid nspc then (Inl (ConfigNamespaceBadName nspc), mgr)
      else if has_key (namespaces mgr) nspc
      then (Inl (ConfigManagerDuplicateNamespace (''Namespace '' @ nspc @ '' already exists.'')), mgr)
      else (case ConfigNamespace_init nspc kwargs of
              Inl e \<Rightarrow> (Inl e, mgr)
            | Inr n \<Rightarrow>
                (let mgr' = mgr\<lparr>namespaces := AList.update nspc n (namespaces mgr)\<rparr>
                 in (subscript (namespaces mgr') nspc, mgr'))))"

definition get_namespace :: "manager \<Rightarrow> string \<Rightarrow> bool \<Rightarrow> exn + namespace" where
  "get_namespace mgr nspc ornearest =
     (if \<not> isnsnamevalid nspc then Inl (ConfigNamespaceBadName nspc)
      else if has_key (namespaces mgr) nspc then subscript (namespaces mgr) nspc
      else if ornearest then subscript (namespaces mgr) (hd (parent_namespaces mgr nspc))
      else Inl (ConfigManagerMissingNamespace nspc))"

section \<open>The singleton manager and the module functions\<close>

text \<open>
  The global \<open>configuration_manager\<close> is \<open>None\<close> or a manager. Every module function
  takes the global and returns it as it is afterwards, also when it raises.
\<close>

definition getConfigManager :: "manager option \<Rightarrow> (string \<times> pyval) list \<Rightarrow>
    (exn + manager) \<times> manager option" where
  "getConfigManager g kwargs =
     (case g of
        Some mgr \<Rightarrow> (Inr mgr, g)
      | None \<Rightarrow>
          (case ConfigurationManager_init 1 kwargs of
             Inl e \<Rightarrow> (Inl e, g)
           | Inr mgr \<Rightarrow> (Inr mgr, Some mgr)))"

text \<open>
  \<open>getConfig(nspc, ornearest, **kwargs)\<close>, with \<open>kwargs\<close> the keywords besides the two
  parameters. \<open>caller\<close> is the \<open>__name__\<close> of the calling module, which the source
  reads from the call stack. In the branch of an existing namespace
  \<open>rtn.add_properties\<close> changes the namespace object held by the manager.
\<close>

definition getConfig :: "manager option \<Rightarrow> string \<Rightarrow> string option \<Rightarrow> bool \<Rightarrow>
    (string \<times> pyval) list \<Rightarrow> (exn + namespace) \<times> manager option" where
  "getConfig g caller nspc ornearest kwargs =
     (if kw_clash [''nspc'', ''ornearest''] kwargs then (Inl TypeError, g)
      else case getConfigManager g [] of
        (Inl e, g') \<Rightarrow> (Inl e, g')
      | (Inr mgr, g') \<Rightarrow>
          (if nspc \<noteq> None \<and> nspc \<noteq> Some [] then
             (case has_namespace mgr (the nspc) of
                Inl e \<Rightarrow> (Inl e, g')
              | Inr True \<Rightarrow>
                  (case get_namespace mgr (the nspc) True of
                     Inl e \<Rightarrow> (Inl e, g')
                   | Inr rtn \<Rightarrow>
                       (if kwargs \<noteq> [] then
                          (case add_properties rtn kwargs of
                             (Inl e, _) \<Rightarrow> (Inl e, g')
                           | (Inr _, rtn') \<Rightarrow>
                               (Inr rtn',
                                Some (mgr\<lparr>namespaces :=
                                         AList.update (the nspc) rtn' (namespaces mgr)\<rparr>)))
                        else (Inr rtn, g')))
              | Inr False \<Rightarrow>
                  (case add_namespace mgr (the nspc) kwargs of
                     (r, mgr') \<Rightarrow> (r, Some mgr')))
           else (get_namespace mgr caller ornearest, g')))"

text \<open>
  The \<open>__name__\<close> of configuration.py, the caller of the calls of \<open>getConfig\<close> that
  \<open>getConfigRecord\<close> makes.
\<close>

definition THIS_MODULE :: string where
  "THIS_MODULE = ''dlapp.configuration''"

text \<open>The loop of \<open>getConfigRecord\<close> over the parent namespaces.\<close>

fun search_parents :: "manager option \<Rightarrow> string \<Rightarrow> string \<Rightarrow> string list \<Rightarrow>
    (exn + attr) \<times> manager option" where
  "search_parents g fqname propname [] = (Inl (ConfigPropertyNotFound fqname), g)"
| "search_parents g fqname propname (nss # rest) =
     (case getConfig g THIS_MODULE (Some nss) False [] of
        (Inl e, g') \<Rightarrow> (Inl e, g')
      | (Inr nsp, g') \<Rightarrow>
          (case has_property nsp propname of
             Inl e \<Rightarrow> (Inl e, g')
           | Inr True \<Rightarrow> (getattr nsp propname, g')
           | Inr False \<Rightarrow> search_parents g' fqname propname rest))"

definition getConfigRecord :: "manager option \<Rightarrow> string \<Rightarrow> string \<Rightarrow> bool \<Rightarrow>
    (exn + attr) \<times> manager option" where
  "getConfigRecord g caller fqname ornearest =
     (if fqname = [] then (Inl (ConfigPropertyBadName fqname), g)
      else
        (let p = rfind fqname NS_SEP;
             nspc = (if p \<ge> 0 then take (nat p) fqname else caller);
             propname = (if p \<ge> 0 then drop (nat (p + 1)) fqname else fqname)
         in if \<not> isnsnamevalid nspc then (Inl (ConfigNamespaceBadName nspc), g)
            else if \<not> ispropertynamevalid propname then (Inl (ConfigPropertyBadName propname), g)
            else
              (case getConfig g THIS_MODULE (Some nspc) ornearest [] of
                 (Inl e, g') \<Rightarrow> (Inl e, g')
               | (Inr ns, g') \<Rightarrow>
                   (case has_property ns propname of
                      Inl e \<Rightarrow> (Inl e, g')
                    | Inr True \<Rightarrow> (getattr ns propname, g')
                    | Inr False \<Rightarrow>
                        (if ornearest then
                           (case getConfigManager g' [] of
                              (Inl e, g'') \<Rightarrow> (Inl e, g'')
                            | (Inr mgr, g'') \<Rightarrow>
                                search_parents g'' fqname propname
                                  (parent_namespaces mgr nspc))
                         else (Inl (ConfigPropertyNotFound fqname), g'))))))"

section \<open>AppConfig\<close>

text \<open>
  A configparser-compatible object: \<open>has_option(*keys)\<close> and \<open>get(*keys)\<close>, each of
  which returns or raises.
\<close>

record cfgparser =
  has_option :: "string list \<Rightarrow> exn + bool"
  get_option :: "string list \<Rightarrow> exn + pyval"

text \<open>An entry of \<open>dictalias\<close>: a list of nested keys, or a single key.\<close>

datatype keypath = Keys "string list" | Key string

record appconfig =
  argalias :: pyval
  argformat :: pyval
  envalias :: "string list"
  envformat :: pyval
  cfgparser :: "cfgparser option"
  cfgalias :: "string list list"
  cfgformat :: pyval
  dictconfig :: pyval
  dictalias :: "keypath list"
  dictformat :: pyval
  default_value :: pyval
  has_default :: bool

text \<open>
  Every probe takes the destination record \<open>self.record\<close> and returns whether it set a
  value, or the exception raised, together with the record as it is afterwards.
\<close>

definition argalias_probe :: "host \<Rightarrow> appconfig \<Rightarrow> proprec \<Rightarrow> (exn + bool) \<times> proprec" where
  "argalias_probe call self r =
     (if argalias self \<noteq> PNone then
        (case (if callable (argalias self) then call_value call (argalias self) []
               else Inr (argalias self)) of
           Inl e \<Rightarrow> (Inl e, r)
         | Inr val \<Rightarrow>
             (case (if truthy (argformat self) \<and> callable (argformat self)
                    then call_value call (argformat self) [PStr (rec_name r), val]
                    else Inr val) of
                Inl e \<Rightarrow> (Inl e, r)
              | Inr val' \<Rightarrow>
                  (case set_value call r val' of
                     (Inl e, r') \<Rightarrow> (Inl e, r')
                   | (Inr _, r') \<Rightarrow> (Inr True, r'))))
      else (Inr False, r))"

text \<open>\<open>environ\<close> is \<open>os.environ\<close>.\<close>

fun envalias_loop :: "host \<Rightarrow> (string \<rightharpoonup> string) \<Rightarrow> appconfig \<Rightarrow> string list \<Rightarrow> proprec \<Rightarrow>
    (exn + bool) \<times> proprec" where
  "envalias_loop call environ self [] r = (Inr False, r)"
| "envalias_loop call environ self (alias # rest) r =
     (case environ alias of
        Some s \<Rightarrow>
          (case (if truthy (envformat self) \<and> callable (envformat self)
                 then call_value call (envformat self) [PStr (rec_name r), PStr s]
                 else Inr (PStr s)) of
             Inl e \<Rightarrow> (Inl e, r)
           | Inr val \<Rightarrow>
               (case set_value call r val of
                  (Inl e, r') \<Rightarrow> (Inl e, r')
                | (Inr _, r') \<Rightarrow> (Inr True, r')))
      | None \<Rightarrow> envalias_loop call environ self rest r)"

definition envalias_probe :: "host \<Rightarrow> (string \<rightharpoonup> string) \<Rightarrow> appconfig \<Rightarrow> proprec \<Rightarrow>
    (exn + bool) \<times> proprec" where
  "envalias_probe call environ self r = envalias_loop call environ self (envalias self) r"

fun cfgalias_loop :: "host \<Rightarrow> cfgparser \<Rightarrow> appconfig \<Rightarrow> string list list \<Rightarrow> proprec \<Rightarrow>
    (exn + bool) \<times> proprec" where
  "cfgalias_loop call parser self [] r = (Inr False, r)"
| "cfgalias_loop call parser self (keys # rest) r =
     (case has_option parser keys of
        Inl e \<Rightarrow> (Inl e, r)
      | Inr True \<Rightarrow>
          (case get_option parser keys of
             Inl e \<Rightarrow> (Inl e, r)
           | Inr val \<Rightarrow>
               (case (if truthy (cfgformat self) \<and> callable (cfgformat self)
                      then call_value call (cfgformat self) [PStr (rec_name r), val]
                      else Inr val) of
                  Inl e \<Rightarrow> (Inl e, r)
                | Inr val' \<Rightarrow>
                    (case set_value call r val' of
                       (Inl e, r') \<Rightarrow> (Inl e, r')
                     | (Inr _, r') \<Rightarrow> (Inr True, r'))))
      | Inr False \<Rightarrow> cfgalias_loop call parser self rest r)"

definition cfgalias_probe :: "host \<Rightarrow> appconfig \<Rightarrow> proprec \<Rightarrow> (exn + bool) \<times> proprec" where
  "cfgalias_probe call self r =
     (case cfgparser self of
        Some parser \<Rightarrow> cfgalias_loop call parser self (cfgalias self) r
      | None \<Rightarrow> (Inr False, r))"

text \<open>
  \<open>value[key]\<close> for a string key: a dictionary gives the entry or raises KeyError; a
  list, a string and every value that cannot be subscripted raise TypeError.
\<close>

fun getitem :: "pyval \<Rightarrow> string \<Rightarrow> exn + pyval" where
  "getitem (PDict d) key = subscript d key"
| "getitem v key = Inl TypeError"

text \<open>
  The loop of \<open>_getdictentry\<close>, started with \<open>got = True\<close> and \<open>value = self.dictconfig\<close>.
  Only KeyError is caught.
\<close>

fun getdictentry_loop :: "bool \<Rightarrow> pyval \<Rightarrow> string list \<Rightarrow> exn + (bool \<times> pyval)" where
  "getdictentry_loop got val [] = Inr (got, val)"
| "getdictentry_loop got val (key # rest) =
     (case getitem val key of
        Inr v \<Rightarrow> getdictentry_loop True v rest
      | Inl (KeyError k) \<Rightarrow> Inr (False, PNone)
      | Inl e \<Rightarrow> Inl e)"

definition getdictentry :: "appconfig \<Rightarrow> string list \<Rightarrow> exn + (bool \<times> pyval)" where
  "getdictentry self keys = getdictentry_loop True (dictconfig self) keys"

fun dictalias_loop :: "host \<Rightarrow> appconfig \<Rightarrow> keypath list \<Rightarrow> proprec \<Rightarrow> (exn + bool) \<times> proprec" where
  "dictalias_loop call self [] r = (Inr False, r)"
| "dictalias_loop call self (keys # rest) r =
     (case (case keys of Keys ks \<Rightarrow> getdictentry self ks | Key k \<Rightarrow> getdictentry self [k]) of
        Inl e \<Rightarrow> (Inl e, r)
      | Inr (True, val) \<Rightarrow>
          (case (if truthy (dictformat self) \<and> callable (dictformat self)
                 then call_value call (dictformat self) [PStr (rec_name r), val]
                 else Inr val) of
             Inl e \<Rightarrow> (Inl e, r)
           | Inr val' \<Rightarrow>
               (case set_value call r val' of
                  (Inl e, r') \<Rightarrow> (Inl e, r')
                | (Inr _, r') \<Rightarrow> (Inr True, r')))
      | Inr (False, _) \<Rightarrow> dictalias_loop call self rest r)"

definition dictalias_probe :: "host \<Rightarrow> appconfig \<Rightarrow> proprec \<Rightarrow> (exn + bool) \<times> proprec" where
  "dictalias_probe call self r =
     (if dictconfig self \<noteq> PNone then dictalias_loop call self (dictalias self) r
      else (Inr False, r))"

definition default_probe :: "host \<Rightarrow> appconfig \<Rightarrow> proprec \<Rightarrow> (exn + bool) \<times> proprec" where
  "default_probe call self r =
     (if has_default self then
        (case set_value call r (default_value self) of
           (Inl e, r') \<Rightarrow> (Inl e, r')
         | (Inr _, r') \<Rightarrow> (Inr True, r'))
      else (Inr False, r))"

text \<open>The loop of \<open>resolve\<close> over the list of probes, then \<open>return self.record.value\<close>.\<close>

fun resolve_loop :: "(proprec \<Rightarrow> (exn + bool) \<times> proprec) list \<Rightarrow> proprec \<Rightarrow>
    (exn + pyval) \<times> proprec" where
  "resolve_loop [] r = (get_value r, r)"
| "resolve_loop (res # rest) r =
     (case res r of
        (Inl e, r') \<Rightarrow> (Inl e, r')
      | (Inr True, r') \<Rightarrow> (get_value r', r')
      | (Inr False, r') \<Rightarrow> resolve_loop rest r')"

definition resolve :: "host \<Rightarrow> (string \<rightharpoonup> string) \<Rightarrow> appconfig \<Rightarrow> proprec \<Rightarrow>
    (exn + pyval) \<times> proprec" where
  "resolve call environ self r =
     resolve_loop [argalias_probe call self, envalias_probe call environ self,
                   cfgalias_probe call self, dictalias_probe call self,
                   default_probe call self] r"

section \<open>Notions used to state the claims\<close>

text \<open>
  The namespaces that the public interface produces: a constructed namespace, and what
  \<open>add_property\<close> and \<open>add_properties\<close> leave of one.
\<close>

inductive reachable_ns :: "namespace \<Rightarrow> bool" where
  fresh: "ConfigNamespace_init nspc kwargs = Inr ns \<Longrightarrow> reachable_ns ns"
| added: "reachable_ns ns \<Longrightarrow> reachable_ns (snd (add_property ns name kwargs))"
| added_batch: "reachable_ns ns \<Longrightarrow> reachable_ns (snd (add_properties ns kwargs))"

text \<open>
  An entry of a batch fails when its name is not a property name, when the namespace
  has the name already, or when the record constructor rejects its keywords.
\<close>

definition entry_fails :: "namespace \<Rightarrow> string \<times> pyval \<Rightarrow> bool" where
  "entry_fails ns e =
     (case e of (name, defn) \<Rightarrow>
        \<not> ispropertynamevalid name \<or> has_key ns name \<or>
        (case defn of
           PDict d \<Rightarrow> map_of d ''self'' \<noteq> None \<or> map_of d ''name'' \<noteq> None
         | _ \<Rightarrow> False))"

text \<open>The record that \<open>add_properties\<close> constructs for one entry.\<close>

definition construct :: "string \<Rightarrow> pyval \<Rightarrow> exn + proprec" where
  "construct name defn =
     (case defn of PDict d \<Rightarrow> ConfigPropertyRecordExt_init name d
      | _ \<Rightarrow> ConfigPropertyRecordExt_init name [(''value'', defn)])"


text \<open>The keys of an entry of \<open>dictalias\<close>.\<close>

fun keys_of :: "keypath \<Rightarrow> string list" where
  "keys_of (Keys ks) = ks"
| "keys_of (Key k) = [k]"

text \<open>
  Every key of the chain resolves in the nested mapping: \<open>path_lookup v ks\<close> is the value
  reached, whatever it is.
\<close>

fun path_lookup :: "pyval \<Rightarrow> string list \<Rightarrow> pyval option" where
  "path_lookup v [] = Some v"
| "path_lookup v (k # ks) =
     (case v of
        PDict d \<Rightarrow> (case map_of d k of Some v' \<Rightarrow> path_lookup v' ks | None \<Rightarrow> None)
      | _ \<Rightarrow> None)"

text \<open>
  The chain stops at a key that is missing: the keys before it resolve, and the value
  they lead to is a mapping without the next key.
\<close>

fun path_misses :: "pyval \<Rightarrow> string list \<Rightarrow> bool" where
  "path_misses v [] = False"
| "path_misses v (k # ks) =
     (case v of
        PDict d \<Rightarrow> (case map_of d k of Some v' \<Rightarrow> path_misses v' ks | None \<Rightarrow> True)
      | _ \<Rightarrow> False)"

text \<open>
  A source yields no value: no alias is in the environment; there is no parser, or the
  parser has none of the options; there is no dictionary, or every path stops at a
  missing key.
\<close>

definition env_absent :: "(string \<rightharpoonup> string) \<Rightarrow> appconfig \<Rightarrow> bool" where
  "env_absent environ self = list_all (\<lambda>a. environ a = None) (envalias self)"

definition cfg_absent :: "appconfig \<Rightarrow> bool" where
  "cfg_absent self =
     (case cfgparser self of
        None \<Rightarrow> True
      | Some p \<Rightarrow> list_all (\<lambda>keys. has_option p keys = Inr False) (cfgalias self))"


text \<open>
  Committing a raw value: the formatter, if one is set, is applied to it, the result is
  assigned to the destination property through its setter, and the value of the
  property is read back.
\<close>

definition commit :: "host \<Rightarrow> pyval \<Rightarrow> proprec \<Rightarrow> pyval \<Rightarrow> (exn + pyval) \<times> proprec" where
  "commit call fmt r raw =
     (case (if truthy fmt \<and> callable fmt then call_value call fmt [PStr (rec_name r), raw]
            else Inr raw) of
        Inl e \<Rightarrow> (Inl e, r)
      | Inr v \<Rightarrow>
          (case set_value call r v of
             (Inl e, r') \<Rightarrow> (Inl e, r')
           | (Inr _, r') \<Rightarrow> (get_value r', r')))"

text \<open>What a probe does once it has found a raw value.\<close>

definition found :: "host \<Rightarrow> pyval \<Rightarrow> proprec \<Rightarrow> pyval \<Rightarrow> (exn + bool) \<times> proprec" where
  "found call fmt r raw =
     (case (if truthy fmt \<and> callable fmt then call_value call fmt [PStr (rec_name r), raw]
            else Inr raw) of
        Inl e \<Rightarrow> (Inl e, r)
      | Inr v \<Rightarrow>
          (case set_value call r v of
             (Inl e, r') \<Rightarrow> (Inl e, r')
           | (Inr _, r') \<Rightarrow> (Inr True, r')))"


text \<open>
  \<open>s.split(c)\<close> and \<open>c.join(ws)\<close> for a one-character separator, and the chain of
  names obtained from a dotted name by stripping its last segment again and again,
  the name itself first.
\<close>

fun split_on :: "char \<Rightarrow> string \<Rightarrow> string list" where
  "split_on c [] = [[]]"
| "split_on c (x # xs) =
     (if x = c then [] # split_on c xs
      else (case split_on c xs of [] \<Rightarrow> [[x]] | w # ws \<Rightarrow> (x # w) # ws))"

fun join_with :: "char \<Rightarrow> string list \<Rightarrow> string" where
  "join_with c [] = []"
| "join_with c [w] = w"
| "join_with c (w # v # ws) = w @ c # join_with c (v # ws)"

definition strip_chain :: "string \<Rightarrow> string list" where
  "strip_chain nspc =
     (let segs = split_on NS_SEP nspc
      in map (\<lambda>k. join_with NS_SEP (take k segs)) (rev [1..<Suc (length segs)]))"


text \<open>
  What it means for a string to match a pattern, stated without the matcher: the
  strings of a class, of a concatenation, of an option and of a repetition.
\<close>

inductive matches :: "rexp \<Rightarrow> string \<Rightarrow> bool" where
  m_class: "in_class rs c \<Longrightarrow> matches (Class rs) [c]"
| m_seq: "matches a p \<Longrightarrow> matches b q \<Longrightarrow> matches (Seq a b) (p @ q)"
| m_opt_none: "matches (Opt a) []"
| m_opt_some: "matches a p \<Longrightarrow> matches (Opt a) p"
| m_star_none: "matches (Star a) []"
| m_star_more: "matches a p \<Longrightarrow> matches (Star a) q \<Longrightarrow> matches (Star a) (p @ q)"

inductive_cases matches_ClassE: "matches (Class rs) p"
inductive_cases matches_SeqE: "matches (Seq a b) p"
inductive_cases matches_OptE: "matches (Opt a) p"

text \<open>
  A segment that matches \<open>[A-Za-z][A-Za-z0-9_]*\<close>, a segment that matches
  \<open>[_A-Za-z][A-Za-z0-9_]*\<close>, and a name whose dot-separated segments are the former
  for the first segment and the latter for every other one.
\<close>

definition ident_first :: "string \<Rightarrow> bool" where
  "ident_first seg =
     (case seg of [] \<Rightarrow> False
      | c # w \<Rightarrow> in_class class_alpha c \<and> list_all (in_class class_word) w)"

definition ident_later :: "string \<Rightarrow> bool" where
  "ident_later seg =
     (case seg of [] \<Rightarrow> False
      | c # w \<Rightarrow> in_class class_ualpha c \<and> list_all (in_class class_word) w)"

definition chain_ok :: "string \<Rightarrow> bool" where
  "chain_ok s =
     (case split_on NS_SEP s of [] \<Rightarrow> False
      | seg0 # rest \<Rightarrow> ident_first seg0 \<and> list_all ident_later rest)"

definition ends_with_newline :: "string \<Rightarrow> bool" where
  "ends_with_newline s = (s \<noteq> [] \<and> last s = CHR 0x0A)"


text \<open>The repeated group \<^verbatim>\<open>\.?[_A-Za-z][_a-zA-Z0-9]*\<close> of VALID_NS_NAMES.\<close>

definition ns_group :: rexp where
  "ns_group = Seq (Opt (Class [(CHR ''.'', CHR ''.'')]))
                  (Seq (Class class_ualpha) (Star (Class class_word)))"


section \<open>Example configurations\<close>

text \<open>
  The validation function of the test-suite: it raises unless the value is a number
  strictly between 0 and 10. A bool is a number, \<open>True\<close> being 1 and \<open>False\<close> 0.
\<close>

definition tstvalidate :: host where
  "tstvalidate f args =
     (case args of
        [n, PInt i] \<Rightarrow> if 0 < i \<and> i < 10 then Inr (PBool True) else Inl (UserException 0)
      | [n, PBool b] \<Rightarrow> if b then Inr (PBool True) else Inl (UserException 0)
      | _ \<Rightarrow> Inl (UserException 0))"

definition foo5 :: proprec where
  "foo5 = \<lparr>rec_name = ''foo'', rec_value = PInt 5, rec_hasvalue = True,
           rec_callback = PNone, rec_validate = PFun 0\<rparr>"

definition empty_ns :: namespace where
  "empty_ns = [(''name'', AName ''app'')]"

definition bad_batch :: "(string \<times> pyval) list" where
  "bad_batch = [(''ok'', PDict [(''value'', PInt 1)]), (''!bad'', PInt 2)]"

definition good_batch :: "(string \<times> pyval) list" where
  "good_batch = [(''ok'', PDict [(''value'', PInt 1)]), (''bar'', PInt 2)]"


text \<open>
  A destination property without value and hooks, and an AppConfig with all four sources
  and a default, each supplying a different value.
\<close>

definition unset_foo :: proprec where
  "unset_foo = \<lparr>rec_name = ''foo'', rec_value = PNone, rec_hasvalue = False,
                rec_callback = PNone, rec_validate = PNone\<rparr>"

definition test_environ :: "string \<rightharpoonup> string" where
  "test_environ = [''TEST_VAR'' \<mapsto> ''2'']"

definition test_parser :: cfgparser where
  "test_parser =
     \<lparr>has_option = (\<lambda>keys. Inr (keys = [''section'', ''foo''])),
      get_option = (\<lambda>keys. if keys = [''section'', ''foo''] then Inr (PStr ''3'')
                            else Inl (KeyError (concat keys)))\<rparr>"

definition all_sources :: appconfig where
  "all_sources =
     \<lparr>argalias = PInt 1, argformat = PNone,
      envalias = [''TEST_VAR''], envformat = PNone,
      cfgparser = Some test_parser, cfgalias = [[''section'', ''foo'']], cfgformat = PNone,
      dictconfig = PDict [(''first'', PDict [(''second'', PDict [(''foo'', PInt 4)])])],
      dictalias = [Keys [''first'', ''second'', ''foo'']], dictformat = PNone,
      default_value = PInt 5, has_default = True\<rparr>"

definition no_arg :: appconfig where
  "no_arg = all_sources\<lparr>argalias := PNone\<rparr>"

definition no_env :: appconfig where
  "no_env = no_arg\<lparr>envalias := []\<rparr>"

definition no_cfg :: appconfig where
  "no_cfg = no_env\<lparr>cfgparser := None\<rparr>"



text \<open>Only a dictionary source, whose path leads to \<open>None\<close>.\<close>

definition null_dict :: appconfig where
  "null_dict =
     \<lparr>argalias = PNone, argformat = PNone, envalias = [], envformat = PNone,
      cfgparser = None, cfgalias = [], cfgformat = PNone,
      dictconfig = PDict [(''a'', PDict [(''b'', PDict [(''foo'', PNone)])])],
      dictalias = [Keys [''a'', ''b'', ''foo'']], dictformat = PNone,
      default_value = PNone, has_default = False\<rparr>"

text \<open>A host without functions: every call raises.\<close>

definition no_calls :: host where
  "no_calls f args = Inl TypeError"

text \<open>
  Sources that are configured but yield nothing: the variable is not in the
  environment, the parser lacks the option, and both paths stop at a missing key.
\<close>

definition missing_path :: appconfig where
  "missing_path = null_dict\<lparr>envalias := [''OTHER_VAR''], cfgparser := Some test_parser,
     cfgalias := [[''section'', ''bar'']], dictalias := [Keys [''a'', ''x'', ''foo''], Key ''b'']\<rparr>"


text \<open>
  Registries: the one a new manager has, and the ones obtained by adding namespaces.
\<close>

definition empty_namespace :: "string \<Rightarrow> namespace" where
  "empty_namespace nspc = [(''name'', AName nspc)]"

definition default_only :: manager where
  "default_only = \<lparr>version = 1, namespaces = [(DEFAULT_NS, empty_namespace DEFAULT_NS)]\<rparr>"

definition with_ab :: manager where
  "with_ab = default_only\<lparr>namespaces :=
     [(DEFAULT_NS, empty_namespace DEFAULT_NS), (''a.b'', empty_namespace ''a.b'')]\<rparr>"

definition with_all :: manager where
  "with_all = default_only\<lparr>namespaces :=
     [(DEFAULT_NS, empty_namespace DEFAULT_NS), (''a.b'', empty_namespace ''a.b''),
      (''a.b.c'', empty_namespace ''a.b.c''), (''a'', empty_namespace ''a''),
      (''a.x'', empty_namespace ''a.x'')]\<rparr>"

definition pkg_namespace :: namespace where
  "pkg_namespace =
     [(''name'', AName ''pkg''),
      (''foo'', AProp \<lparr>rec_name = ''foo'', rec_value = PInt 5, rec_hasvalue = True,
                       rec_callback = PNone, rec_validate = PNone\<rparr>)]"

definition pkg_registry :: manager where
  "pkg_registry = default_only\<lparr>namespaces :=
     [(DEFAULT_NS, empty_namespace DEFAULT_NS), (''pkg'', pkg_namespace)]\<rparr>"

text \<open>The registry of a new manager after the namespace \<open>zzz\<close> was added.\<close>

definition with_zzz :: manager where
  "with_zzz = default_only\<lparr>namespaces :=
     [(DEFAULT_NS, empty_namespace DEFAULT_NS), (''zzz'', empty_namespace ''zzz'')]\<rparr>"


text \<open>
  The namespace \<open>ConfigNamespace('foo', has_property=1, add_property=2)\<close>, whose
  properties have the names of two methods.
\<close>

definition shadowed_ns :: namespace where
  "shadowed_ns =
     [(''name'', AName ''foo''),
      (''has_property'', AProp \<lparr>rec_name = ''has_property'', rec_value = PInt 1,
          rec_hasvalue = True, rec_callback = PNone, rec_validate = PNone\<rparr>),
      (''add_property'', AProp \<lparr>rec_name = ''add_property'', rec_value = PInt 2,
          rec_hasvalue = True, rec_callback = PNone, rec_validate = PNone\<rparr>)]"


text \<open>
  A dictionary path that runs into a value that is not a mapping: the path
  \<open>["a", "b"]\<close> over \<open>{"a": 1}\<close>, with no other source and no default.
\<close>

definition scalar_path :: appconfig where
  "scalar_path = null_dict\<lparr>dictconfig := PDict [(''a'', PInt 1)],
     dictalias := [Keys [''a'', ''b'']]\<rparr>"


section \<open>Auxiliary lemmas\<close>

lemmas name_eval_defs = ispropertynamevalid_def isnsnamevalid_def re_match_dollar_def
  VALID_PROPERTY_NAMES_def VALID_NS_NAMES_def in_class_def class_alpha_def class_word_def
  class_ualpha_def DEFAULT_NS_def steps.simps(4)

lemma name_is_property_name: "ispropertynamevalid ''name''"
  by (simp add: name_eval_defs)

lemma kw_clash_Nil [simp]: "kw_clash ps [] = False"
  by (induction ps) (simp_all add: kw_clash_def)

lemma kw_clash_two:
  "kw_clash [p, q] kwargs = (map_of kwargs p \<noteq> None \<or> map_of kwargs q \<noteq> None)"
  by (simp add: kw_clash_def)

lemma has_key_Nil: "has_key [] k = False"
  by (simp add: has_key_def)

lemma has_key_Cons: "has_key ((k, v) # d) k' = (k' = k \<or> has_key d k')"
  by (auto simp: has_key_def)

lemma has_key_update: "has_key (AList.update k v d) k' = (k' = k \<or> has_key d k')"
  by (simp add: has_key_def update_conv')

lemma has_key_fold_update:
  "has_key (fold (\<lambda>(k, v) acc. AList.update k v acc) e d) k' = (has_key d k' \<or> has_key e k')"
proof (induction e arbitrary: d)
  case Nil
  show ?case by (simp add: has_key_Nil)
next
  case (Cons p e)
  obtain k v where p: "p = (k, v)" by (cases p)
  show ?case unfolding p
    by (auto simp: Cons.IH has_key_update has_key_Cons)
qed

lemma has_key_dict_update: "has_key (dict_update d e) k = (has_key d k \<or> has_key e k)"
  by (simp add: dict_update_def has_key_fold_update)

lemma add_properties_keeps_key:
  "has_key ns k \<Longrightarrow> has_key (snd (add_properties ns kwargs)) k"
  by (auto simp: add_properties_def Let_def has_key_dict_update
      split: option.splits pyval.splits sum.splits)

lemma add_property_keeps_key:
  "has_key ns k \<Longrightarrow> has_key (snd (add_property ns name kwargs)) k"
  by (auto simp: add_property_def Let_def has_key_dict_update split: sum.splits)

lemma init_has_name: "ConfigNamespace_init nspc kwargs = Inr ns \<Longrightarrow> has_key ns ''name''"
proof -
  assume a: "ConfigNamespace_init nspc kwargs = Inr ns"
  have k: "has_key [(''name'', AName nspc)] ''name''" by (simp add: has_key_Cons)
  show ?thesis
  proof (cases "kwargs = []")
    case True
    with a k show ?thesis by (auto simp: ConfigNamespace_init_def Let_def split: if_splits)
  next
    case False
    with a have "ns = snd (add_properties [(''name'', AName nspc)] kwargs)"
      by (auto simp: ConfigNamespace_init_def Let_def split: if_splits prod.splits sum.splits)
    with add_properties_keeps_key [OF k] show ?thesis by simp
  qed
qed

lemma reachable_has_name: "reachable_ns ns \<Longrightarrow> has_key ns ''name''"
  by (induction rule: reachable_ns.induct)
    (auto intro: init_has_name add_property_keeps_key add_properties_keeps_key)

lemma foo_ns: "isnsnamevalid ''foo''" by (simp add: name_eval_defs)

lemma init_succeeds:
  assumes "map_of kw ''self'' = None" and "map_of kw ''name'' = None"
  shows "\<exists>pr. ConfigPropertyRecordExt_init name kw = Inr pr"
  using assms
  by (cases "map_of kw ''value''") (simp_all add: ConfigPropertyRecordExt_init_def kw_clash_two)

lemma init_fails:
  assumes "map_of kw ''self'' \<noteq> None \<or> map_of kw ''name'' \<noteq> None"
  shows "ConfigPropertyRecordExt_init name kw = Inl TypeError"
  using assms by (auto simp: ConfigPropertyRecordExt_init_def kw_clash_two)

lemma construct_cases:
  "(\<exists>pr. construct name defn = Inr pr \<and> \<not> (case defn of
        PDict d \<Rightarrow> map_of d ''self'' \<noteq> None \<or> map_of d ''name'' \<noteq> None | _ \<Rightarrow> False)) \<or>
   (construct name defn = Inl TypeError \<and> (case defn of
        PDict d \<Rightarrow> map_of d ''self'' \<noteq> None \<or> map_of d ''name'' \<noteq> None | _ \<Rightarrow> False))"
proof (cases defn)
  case (PDict d)
  show ?thesis
  proof (cases "map_of d ''self'' \<noteq> None \<or> map_of d ''name'' \<noteq> None")
    case True
    from init_fails [OF this, of name] True show ?thesis by (simp add: PDict construct_def)
  next
    case False
    with init_succeeds [of d name] show ?thesis by (auto simp: PDict construct_def)
  qed
qed (insert init_succeeds [of "[(''value'', defn)]" name], auto simp: construct_def)

lemma build_props_fails_iff:
  "(\<exists>e. build_props ns items props = Inl e) = list_ex (entry_fails ns) items"
proof (induction items arbitrary: props)
  case Nil
  show ?case by simp
next
  case (Cons it items)
  obtain name defn where it: "it = (name, defn)" by (cases it)
  have step: "build_props ns ((name, defn) # items) props =
     (if \<not> ispropertynamevalid name then Inl (ConfigPropertyBadName name)
      else if has_key ns name then Inl (ConfigNamespaceDuplicateProperty name)
      else (case construct name defn of
              Inl e \<Rightarrow> Inl e
            | Inr pr \<Rightarrow> build_props ns items (AList.update name (AProp pr) props)))"
    by (simp add: construct_def)
  have head: "entry_fails ns (name, defn) =
      (\<not> ispropertynamevalid name \<or> has_key ns name \<or>
       (case defn of PDict d \<Rightarrow> map_of d ''self'' \<noteq> None \<or> map_of d ''name'' \<noteq> None
        | _ \<Rightarrow> False))"
    by (simp add: entry_fails_def)
  show ?case
  proof (cases "entry_fails ns (name, defn)")
    case True
    then have l: "list_ex (entry_fails ns) (it # items)"
      by (simp add: it)
    from True have "\<not> ispropertynamevalid name \<or> has_key ns name \<or>
        construct name defn = Inl TypeError"
      unfolding head using construct_cases [of name defn] by auto
    then have "\<exists>e. build_props ns (it # items) props = Inl e"
      unfolding it step by auto
    with l show ?thesis by simp
  next
    case False
    with construct_cases [of name defn] obtain pr where pr: "construct name defn = Inr pr"
      unfolding head by auto
    from False have "list_ex (entry_fails ns) (it # items) = list_ex (entry_fails ns) items"
      by (simp add: it)
    moreover from False have "build_props ns (it # items) props =
        build_props ns items (AList.update name (AProp pr) props)"
      unfolding it step head using pr by simp
    ultimately show ?thesis using Cons.IH by simp
  qed
qed

lemma has_key_iff_fst: "has_key d k = (k \<in> fst ` set d)"
  by (simp add: has_key_def map_of_eq_None_iff)

lemma build_props_keys:
  "build_props ns items props = Inr ps \<Longrightarrow> has_key ps k = (has_key props k \<or> k \<in> fst ` set items)"
proof (induction items arbitrary: props)
  case Nil
  then show ?case by simp
next
  case (Cons it items)
  obtain name defn where it: "it = (name, defn)" by (cases it)
  from Cons.prems obtain pr where
    rest: "build_props ns items (AList.update name (AProp pr) props) = Inr ps"
    unfolding it by (auto split: if_splits sum.splits)
  from Cons.IH [OF rest] show ?case
    by (auto simp: it has_key_update)
qed

lemma collect_rtn_succeeds:
  "\<forall>n \<in> set names. has_key ns n \<Longrightarrow> \<exists>out. collect_rtn ns names rtn = Inr out"
proof (induction names arbitrary: rtn)
  case Nil
  show ?case by simp
next
  case (Cons n names)
  then obtain a where "map_of ns n = Some a" by (auto simp: has_key_def)
  with Cons show ?case by (simp add: getattr_def)
qed

lemma bad_batch_fails: "list_ex (entry_fails empty_ns) bad_batch"
  by (simp add: bad_batch_def entry_fails_def name_eval_defs)

lemma good_batch_ok: "\<not> list_ex (entry_fails empty_ns) good_batch"
  by (simp add: good_batch_def entry_fails_def name_eval_defs empty_ns_def has_key_def)


lemma getdictentry_loop_hit:
  "(getdictentry_loop True val ks = Inr (True, v)) = (path_lookup val ks = Some v)"
proof (induction ks arbitrary: val)
  case Nil
  show ?case by auto
next
  case (Cons k ks)
  show ?case
    by (cases val) (auto simp: subscript_def Cons.IH split: option.splits)
qed

lemma getdictentry_loop_miss:
  "ks \<noteq> [] \<Longrightarrow> (getdictentry_loop got val ks = Inr (False, x)) = (path_misses val ks \<and> x = PNone)"
proof (induction ks arbitrary: val got)
  case Nil
  then show ?case by simp
next
  case (Cons k ks)
  show ?case
  proof (cases ks)
    case Nil
    then show ?thesis
      by (cases val) (auto simp: subscript_def split: option.splits)
  next
    case (Cons k' ks')
    then have "ks \<noteq> []" by simp
    note ih = Cons.IH [OF this]
    show ?thesis
      by (cases val) (auto simp: subscript_def ih split: option.splits)
  qed
qed

lemma getdictentry_miss:
  "path_misses (dictconfig self) ks \<Longrightarrow> getdictentry self ks = Inr (False, PNone)"
  using getdictentry_loop_miss [of ks True "dictconfig self" PNone]
  by (cases ks) (auto simp: getdictentry_def)

lemma getdictentry_hit:
  "(getdictentry self ks = Inr (True, v)) = (path_lookup (dictconfig self) ks = Some v)"
  by (simp add: getdictentry_def getdictentry_loop_hit)

lemma getdictentry_keypath:
  "(case kp of Keys ks \<Rightarrow> getdictentry self ks | Key k \<Rightarrow> getdictentry self [k])
     = getdictentry self (keys_of kp)"
  by (cases kp) simp_all

lemma set_value_plain:
  "\<not> callable (rec_validate r) \<Longrightarrow> \<not> callable (rec_callback r) \<Longrightarrow>
   set_value call r v = (Inr v, r\<lparr>rec_value := v, rec_hasvalue := True\<rparr>)"
  by (simp add: set_value_def)

lemma found_then_read:
  "(case found call fmt r raw of
      (Inl e, r') \<Rightarrow> (Inl e, r')
    | (Inr True, r') \<Rightarrow> (get_value r', r')
    | (Inr False, r') \<Rightarrow> rest r') = commit call fmt r raw"
  by (auto simp: found_def commit_def split: sum.splits prod.splits bool.splits)

lemma envalias_loop_absent:
  "list_all (\<lambda>a. environ a = None) as \<Longrightarrow> envalias_loop call environ self as r = (Inr False, r)"
  by (induction as) simp_all


lemma cfgalias_loop_absent:
  "list_all (\<lambda>k. has_option p k = Inr False) ks \<Longrightarrow> cfgalias_loop call p self ks r = (Inr False, r)"
  by (induction ks) simp_all



lemma dictalias_loop_found:
  "list_all (\<lambda>kp. path_misses (dictconfig self) (keys_of kp)) pre \<Longrightarrow>
   path_lookup (dictconfig self) (keys_of kp) = Some v \<Longrightarrow>
   dictalias_loop call self (pre @ kp # post) r = found call (dictformat self) r v"
proof (induction pre)
  case Nil
  from Nil(2) have "getdictentry self (keys_of kp) = Inr (True, v)"
    by (simp add: getdictentry_hit)
  then show ?case by (simp add: getdictentry_keypath found_def)
next
  case (Cons a pre)
  then show ?case by (simp add: getdictentry_keypath getdictentry_miss)
qed

lemma argalias_probe_absent: "argalias self = PNone \<Longrightarrow> argalias_probe call self r = (Inr False, r)"
  by (simp add: argalias_probe_def)

lemma envalias_probe_absent:
  "env_absent environ self \<Longrightarrow> envalias_probe call environ self r = (Inr False, r)"
  by (simp add: envalias_probe_def env_absent_def envalias_loop_absent)

lemma cfgalias_probe_absent: "cfg_absent self \<Longrightarrow> cfgalias_probe call self r = (Inr False, r)"
  by (auto simp: cfgalias_probe_def cfg_absent_def cfgalias_loop_absent split: option.splits)



lemma resolve_unfold:
  "resolve call environ self r =
     (case argalias_probe call self r of
        (Inl e, r') \<Rightarrow> (Inl e, r')
      | (Inr True, r') \<Rightarrow> (get_value r', r')
      | (Inr False, r1) \<Rightarrow>
     (case envalias_probe call environ self r1 of
        (Inl e, r') \<Rightarrow> (Inl e, r')
      | (Inr True, r') \<Rightarrow> (get_value r', r')
      | (Inr False, r2) \<Rightarrow>
     (case cfgalias_probe call self r2 of
        (Inl e, r') \<Rightarrow> (Inl e, r')
      | (Inr True, r') \<Rightarrow> (get_value r', r')
      | (Inr False, r3) \<Rightarrow>
     (case dictalias_probe call self r3 of
        (Inl e, r') \<Rightarrow> (Inl e, r')
      | (Inr True, r') \<Rightarrow> (get_value r', r')
      | (Inr False, r4) \<Rightarrow>
     (case default_probe call self r4 of
        (Inl e, r') \<Rightarrow> (Inl e, r')
      | (Inr True, r') \<Rightarrow> (get_value r', r')
      | (Inr False, r5) \<Rightarrow> (get_value r5, r5))))))"
  by (simp add: resolve_def split: prod.splits sum.splits bool.splits)









lemma resolve_dict:
  assumes "argalias self = PNone" and "env_absent environ self" and "cfg_absent self"
    and "dictconfig self \<noteq> PNone" and "dictalias self = pre @ kp # post"
    and "list_all (\<lambda>k. path_misses (dictconfig self) (keys_of k)) pre"
    and "path_lookup (dictconfig self) (keys_of kp) = Some v"
  shows "resolve call environ self r = commit call (dictformat self) r v"
proof -
  have d: "dictalias_probe call self r = found call (dictformat self) r v"
    using assms(4-7) by (simp add: dictalias_probe_def dictalias_loop_found)
  show ?thesis
    unfolding resolve_unfold argalias_probe_absent [OF assms(1)]
    by (simp add: envalias_probe_absent [OF assms(2)] cfgalias_probe_absent [OF assms(3)] d
        found_then_read)
qed



lemma commit_plain:
  "\<not> callable fmt \<Longrightarrow> \<not> callable (rec_validate r) \<Longrightarrow> \<not> callable (rec_callback r) \<Longrightarrow>
   commit call fmt r v = (Inr v, r\<lparr>rec_value := v, rec_hasvalue := True\<rparr>)"
  by (simp add: commit_def set_value_plain get_value_def)

lemma commit_unset_foo:
  "commit call PNone unset_foo v = (Inr v, unset_foo\<lparr>rec_value := v, rec_hasvalue := True\<rparr>)"
  by (rule commit_plain) (simp_all add: unset_foo_def)


lemma rfind_absent: "c \<notin> set s \<Longrightarrow> rfind s c = - 1"
  by (induction s) (auto simp: Let_def)

lemma rfind_last: "c \<notin> set ys \<Longrightarrow> rfind (xs @ c # ys) c = int (length xs)"
  by (induction xs) (auto simp: Let_def rfind_absent)

lemma parents_no_sep:
  "NS_SEP \<notin> set nspc \<Longrightarrow>
   parents mgr nspc = (if has_key (namespaces mgr) nspc then [nspc] else [])"
  by (subst parents.simps) (simp add: rfind_absent Let_def)

lemma parents_sep:
  "NS_SEP \<notin> set ys \<Longrightarrow>
   parents mgr (xs @ NS_SEP # ys) =
     (if has_key (namespaces mgr) (xs @ NS_SEP # ys) then [xs @ NS_SEP # ys] else [])
     @ parents mgr xs"
  by (subst parents.simps) (simp add: rfind_last Let_def)

lemma split_on_nonempty: "split_on c s \<noteq> []"
  by (induction s) (auto split: list.splits)

lemma split_on_no_sep: "c \<notin> set s \<Longrightarrow> split_on c s = [s]"
  by (induction s) auto

lemma split_on_last: "c \<notin> set ys \<Longrightarrow> split_on c (xs @ c # ys) = split_on c xs @ [ys]"
proof (induction xs)
  case Nil
  then show ?case by (simp add: split_on_no_sep)
next
  case (Cons x xs)
  then show ?case
    using split_on_nonempty [of c xs] by (cases "split_on c xs") auto
qed

lemma join_with_Cons: "join_with c ((x # w) # ws) = x # join_with c (w # ws)"
  by (cases ws) simp_all

lemma join_with_split_on: "join_with c (split_on c s) = s"
proof (induction s)
  case Nil
  show ?case by simp
next
  case (Cons x s)
  obtain w ws where sp: "split_on c s = w # ws"
    using split_on_nonempty [of c s] by (cases "split_on c s") auto
  with Cons show ?case by (simp add: join_with_Cons)
qed

lemma strip_chain_no_sep: "NS_SEP \<notin> set s \<Longrightarrow> strip_chain s = [s]"
  by (simp add: strip_chain_def split_on_no_sep)

lemma strip_chain_sep:
  assumes "NS_SEP \<notin> set ys"
  shows "strip_chain (xs @ NS_SEP # ys) = (xs @ NS_SEP # ys) # strip_chain xs"
proof -
  let ?S = "split_on NS_SEP xs"
  have sp: "split_on NS_SEP (xs @ NS_SEP # ys) = ?S @ [ys]"
    using assms by (rule split_on_last)
  have whole: "join_with NS_SEP (?S @ [ys]) = xs @ NS_SEP # ys"
    using join_with_split_on [of NS_SEP "xs @ NS_SEP # ys"] sp by simp
  have "map (\<lambda>k. join_with NS_SEP (take k (?S @ [ys]))) (rev [1..<Suc (length ?S)])
      = map (\<lambda>k. join_with NS_SEP (take k ?S)) (rev [1..<Suc (length ?S)])"
    by (rule map_cong) auto
  then show ?thesis
    by (simp add: strip_chain_def sp whole Let_def)
qed

lemma sep_cases:
  obtains "NS_SEP \<notin> set s" | xs ys where "s = xs @ NS_SEP # ys" and "NS_SEP \<notin> set ys"
  using split_list_last [of NS_SEP s] by blast

lemma parents_strip_chain:
  "parents mgr nspc = filter (has_key (namespaces mgr)) (strip_chain nspc)"
proof (induction nspc rule: length_induct)
  case (1 s)
  show ?case
  proof (cases s rule: sep_cases)
    case 1
    then show ?thesis by (simp add: parents_no_sep strip_chain_no_sep)
  next
    case (2 xs ys)
    have "length xs < length s" using 2 by simp
    with 1 have "parents mgr xs = filter (has_key (namespaces mgr)) (strip_chain xs)" by blast
    with 2 show ?thesis by (simp add: parents_sep strip_chain_sep)
  qed
qed

lemma strip_chain_ancestors:
  "x \<in> set (strip_chain s) \<Longrightarrow> x = s \<or> (\<exists>rest. s = x @ NS_SEP # rest)"
proof (induction s arbitrary: x rule: length_induct)
  case (1 s)
  show ?case
  proof (cases s rule: sep_cases)
    case 1
    with "1.prems" show ?thesis by (simp add: strip_chain_no_sep)
  next
    case (2 xs ys)
    have l: "length xs < length s" using 2 by simp
    from "1.prems" 2 have "x = s \<or> x \<in> set (strip_chain xs)"
      by (simp add: strip_chain_sep)
    then show ?thesis
    proof
      assume "x \<in> set (strip_chain xs)"
      with 1 l have "x = xs \<or> (\<exists>rest. xs = x @ NS_SEP # rest)" by blast
      with 2 show ?thesis by auto
    qed simp
  qed
qed

lemma strip_chain_nearest_first: "sorted_wrt (\<lambda>a b. length b < length a) (strip_chain s)"
proof (induction s rule: length_induct)
  case (1 s)
  show ?case
  proof (cases s rule: sep_cases)
    case 1
    then show ?thesis by (simp add: strip_chain_no_sep)
  next
    case (2 xs ys)
    have l: "length xs < length s" using 2 by simp
    have "length x < length s" if "x \<in> set (strip_chain xs)" for x
      using strip_chain_ancestors [OF that] l by auto
    with 1 l 2 show ?thesis by (simp add: strip_chain_sep)
  qed
qed


lemma strip_chain_abc: "strip_chain ''a.b.c'' = [''a.b.c'', ''a.b'', ''a'']"
  by (simp add: strip_chain_def NS_SEP_def upt_rec)

lemma registries_built:
  "ConfigurationManager_init 1 [] = Inr default_only \<and>
   snd (add_namespace default_only ''a.b'' []) = with_ab"
  by (simp add: ConfigurationManager_init_def has_key_def default_only_def with_ab_def
      add_namespace_def ConfigNamespace_init_def empty_namespace_def dict_update_def
      name_eval_defs subscript_def pkg_registry_def)

lemma map_of_update_same: "map_of (AList.update k v d) k = Some v"
  by (simp add: update_conv')

lemma pkg_mod_valid: "isnsnamevalid ''pkg.mod''"
  by (simp add: name_eval_defs)

lemma pkg_mod_absent: "\<not> has_key (namespaces pkg_registry) ''pkg.mod''"
  by (simp add: pkg_registry_def has_key_def DEFAULT_NS_def)


lemma steps_sound: "t \<in> set (steps r s) \<Longrightarrow> \<exists>p. s = p @ t \<and> matches r p"
proof (induction r s arbitrary: t rule: steps.induct)
  case (1 rs s)
  then show ?case
    by (cases s) (auto split: if_splits intro: m_class)
next
  case (2 a b s)
  from "2.prems" obtain u where u: "u \<in> set (steps a s)" and t: "t \<in> set (steps b u)"
    by auto
  from "2.IH"(1) [OF u] obtain p where p: "s = p @ u" "matches a p" by blast
  from "2.IH"(2) [OF u t] obtain q where q: "u = q @ t" "matches b q" by blast
  from p q have "s = (p @ q) @ t" "matches (Seq a b) (p @ q)" by (auto intro: m_seq)
  then show ?case by blast
next
  case (3 a s)
  from "3.prems" have "t \<in> set (steps a s) \<or> t = s" by auto
  then show ?case
  proof
    assume "t \<in> set (steps a s)"
    from "3.IH" [OF this] show ?thesis by (auto intro: m_opt_some)
  next
    assume "t = s"
    then show ?thesis by (auto intro: m_opt_none)
  qed
next
  case (4 a s)
  from "4.prems" consider "t = s"
    | u where "u \<in> set (steps a s)" "length u < length s" "t \<in> set (steps (Star a) u)"
    by (subst (asm) steps.simps(4)) auto
  then show ?case
  proof cases
    case 1
    then show ?thesis by (auto intro: m_star_none)
  next
    case (2 u)
    from "4.IH"(1) [OF 2(1)] obtain p where p: "s = p @ u" "matches a p" by blast
    have "u \<in> set (filter (\<lambda>t. length t < length s) (steps a s))" using 2 by simp
    from "4.IH"(2) [OF this 2(3)] obtain q where q: "u = q @ t" "matches (Star a) q" by blast
    from p q have "s = (p @ q) @ t" "matches (Star a) (p @ q)" by (auto intro: m_star_more)
    then show ?thesis by blast
  qed
qed

lemma steps_complete: "matches r p \<Longrightarrow> t \<in> set (steps r (p @ t))"
proof (induction r p arbitrary: t rule: matches.induct)
  case (m_star_more a p q)
  show ?case
  proof (cases "p = []")
    case True
    with m_star_more.IH(2) [of t] show ?thesis by simp
  next
    case False
    have "q @ t \<in> set (steps a (p @ q @ t))" using m_star_more.IH(1) [of "q @ t"] by simp
    moreover have "length (q @ t) < length (p @ q @ t)" using False by simp
    moreover have "t \<in> set (steps (Star a) (q @ t))" by (rule m_star_more.IH(2))
    ultimately have "t \<in> set (concat (map (steps (Star a))
        (filter (\<lambda>u. length u < length (p @ q @ t)) (steps a (p @ q @ t)))))"
      by (simp only: set_concat set_map set_filter) blast
    then show ?thesis by (subst steps.simps(4)) simp
  qed
next
  case (m_star_none a)
  show ?case by (subst steps.simps(4)) simp
qed auto

lemma re_match_dollar_iff:
  "re_match_dollar r s = (matches r s \<or> (\<exists>b. s = b @ [CHR 0x0A] \<and> matches r b))"
proof
  assume "re_match_dollar r s"
  then obtain t where t: "t \<in> set (steps r s)" "t = [] \<or> t = [CHR 0x0A]"
    by (auto simp: re_match_dollar_def list_ex_iff)
  from steps_sound [OF t(1)] t(2) show "matches r s \<or> (\<exists>b. s = b @ [CHR 0x0A] \<and> matches r b)"
    by auto
next
  assume "matches r s \<or> (\<exists>b. s = b @ [CHR 0x0A] \<and> matches r b)"
  then show "re_match_dollar r s"
  proof
    assume "matches r s"
    from steps_complete [OF this, of "[]"] show ?thesis
      by (auto simp: re_match_dollar_def list_ex_iff)
  next
    assume "\<exists>b. s = b @ [CHR 0x0A] \<and> matches r b"
    then obtain b where b: "s = b @ [CHR 0x0A]" "matches r b" by blast
    from steps_complete [OF b(2), of "[CHR 0x0A]"] b(1) show ?thesis
      by (auto simp: re_match_dollar_def list_ex_iff)
  qed
qed


lemma word_not_sep: "in_class class_word c \<Longrightarrow> c \<noteq> NS_SEP \<and> c \<noteq> CHR 0x0A"
  by (auto simp: in_class_def class_word_def NS_SEP_def)

lemma alpha_word: "in_class class_alpha c \<Longrightarrow> in_class class_word c"
  by (auto simp: in_class_def class_word_def class_alpha_def)

lemma ualpha_word: "in_class class_ualpha c \<Longrightarrow> in_class class_word c"
  by (auto simp: in_class_def class_word_def class_ualpha_def)

lemma in_class_single: "in_class [(d, d)] c = (c = d)"
  by (auto simp: in_class_def)

lemma star_class_only:
  "matches r w \<Longrightarrow> r = Star (Class rs) \<Longrightarrow> list_all (in_class rs) w"
  by (induction r w rule: matches.induct) (auto elim: matches_ClassE)

lemma star_class_all: "list_all (in_class rs) w \<Longrightarrow> matches (Star (Class rs)) w"
proof (induction w)
  case Nil
  show ?case by (rule m_star_none)
next
  case (Cons c w)
  then have "matches (Class rs) [c]" "matches (Star (Class rs)) w"
    by (auto intro: m_class)
  from m_star_more [OF this] show ?case by simp
qed

lemma matches_star_class: "matches (Star (Class rs)) w = list_all (in_class rs) w"
  using star_class_only star_class_all by blast

lemma matches_ident:
  "matches (Seq (Class cs) (Star (Class ws))) p =
   (\<exists>c w. p = c # w \<and> in_class cs c \<and> list_all (in_class ws) w)"
proof
  assume "matches (Seq (Class cs) (Star (Class ws))) p"
  then show "\<exists>c w. p = c # w \<and> in_class cs c \<and> list_all (in_class ws) w"
    by (auto elim!: matches_SeqE matches_ClassE simp: matches_star_class)
next
  assume "\<exists>c w. p = c # w \<and> in_class cs c \<and> list_all (in_class ws) w"
  then obtain c w where p: "p = c # w" "in_class cs c" "list_all (in_class ws) w" by blast
  then have "matches (Class cs) [c]" "matches (Star (Class ws)) w"
    by (auto intro: m_class simp: matches_star_class)
  from m_seq [OF this] p(1) show "matches (Seq (Class cs) (Star (Class ws))) p" by simp
qed

lemma matches_first: "matches (Seq (Class class_alpha) (Star (Class class_word))) p = ident_first p"
  by (auto simp: matches_ident ident_first_def split: list.splits)

lemma matches_later: "matches (Seq (Class class_ualpha) (Star (Class class_word))) p = ident_later p"
  by (auto simp: matches_ident ident_later_def split: list.splits)

lemma matches_group:
  "matches ns_group g = (ident_later g \<or> (\<exists>u. g = NS_SEP # u \<and> ident_later u))"
proof
  assume "matches ns_group g"
  then show "ident_later g \<or> (\<exists>u. g = NS_SEP # u \<and> ident_later u)"
    unfolding ns_group_def
    by (auto elim!: matches_SeqE [of "Opt _"] matches_OptE matches_ClassE
        simp: matches_later in_class_single NS_SEP_def)
next
  assume "ident_later g \<or> (\<exists>u. g = NS_SEP # u \<and> ident_later u)"
  then show "matches ns_group g"
  proof
    assume "ident_later g"
    then have "matches (Seq (Class class_ualpha) (Star (Class class_word))) g"
      by (simp add: matches_later)
    from m_seq [OF m_opt_none this] show ?thesis by (simp add: ns_group_def)
  next
    assume "\<exists>u. g = NS_SEP # u \<and> ident_later u"
    then obtain u where u: "g = NS_SEP # u" "ident_later u" by blast
    have "matches (Opt (Class [(CHR ''.'', CHR ''.'')])) [NS_SEP]"
      by (rule m_opt_some, rule m_class) (simp add: in_class_single NS_SEP_def)
    moreover have "matches (Seq (Class class_ualpha) (Star (Class class_word))) u"
      using u(2) by (simp add: matches_later)
    ultimately have "matches ns_group ([NS_SEP] @ u)"
      unfolding ns_group_def by (rule m_seq)
    with u(1) show ?thesis by simp
  qed
qed

lemma ident_later_words: "ident_later u \<Longrightarrow> list_all (in_class class_word) u"
  by (auto simp: ident_later_def ualpha_word split: list.splits)

lemma ident_first_words: "ident_first u \<Longrightarrow> list_all (in_class class_word) u"
  by (auto simp: ident_first_def alpha_word split: list.splits)

lemma words_no_sep: "list_all (in_class class_word) u \<Longrightarrow> NS_SEP \<notin> set u"
  using word_not_sep by (auto simp: list_all_iff)

lemma ident_first_append:
  "ident_first w \<Longrightarrow> list_all (in_class class_word) u \<Longrightarrow> ident_first (w @ u)"
  by (auto simp: ident_first_def split: list.splits)

lemma ident_later_append:
  "ident_later w \<Longrightarrow> list_all (in_class class_word) u \<Longrightarrow> ident_later (w @ u)"
  by (auto simp: ident_later_def split: list.splits)

lemma split_on_append_no_sep:
  "c \<notin> set u \<Longrightarrow>
   split_on c (p @ u) = butlast (split_on c p) @ [last (split_on c p) @ u]"
proof (induction p)
  case Nil
  then show ?case by (simp add: split_on_no_sep)
next
  case (Cons x p)
  obtain w ws where sp: "split_on c p = w # ws"
    using split_on_nonempty [of c p] by (cases "split_on c p") auto
  with Cons show ?case
    by (cases ws) auto
qed

lemma chain_ok_first: "ident_first p \<Longrightarrow> chain_ok p"
  using words_no_sep [OF ident_first_words, of p]
  by (simp add: chain_ok_def split_on_no_sep)

lemma chain_ok_dot: "chain_ok p \<Longrightarrow> ident_later u \<Longrightarrow> chain_ok (p @ NS_SEP # u)"
  using words_no_sep [OF ident_later_words, of u]
  by (auto simp: chain_ok_def split_on_last split: list.splits)

lemma chain_ok_more:
  assumes "chain_ok p" and "ident_later u"
  shows "chain_ok (p @ u)"
proof -
  have w: "list_all (in_class class_word) u" using assms(2) by (rule ident_later_words)
  then have n: "NS_SEP \<notin> set u" by (rule words_no_sep)
  obtain seg0 rest where sp: "split_on NS_SEP p = seg0 # rest"
    using split_on_nonempty [of NS_SEP p] by (cases "split_on NS_SEP p") auto
  from assms(1) sp have ok: "ident_first seg0" "list_all ident_later rest"
    by (simp_all add: chain_ok_def)
  show ?thesis
  proof (cases "rest = []")
    case True
    with sp ok w show ?thesis
      by (simp add: chain_ok_def split_on_append_no_sep [OF n] ident_first_append)
  next
    case False
    then have "butlast (seg0 # rest) @ [last (seg0 # rest) @ u]
        = seg0 # butlast rest @ [last rest @ u]" by simp
    moreover have "list_all ident_later (butlast rest @ [last rest @ u])"
    proof -
      from False ok(2) have "list_all ident_later (butlast rest)" "ident_later (last rest)"
        by (auto simp: list_all_iff dest: in_set_butlastD)
      with w show ?thesis by (simp add: ident_later_append)
    qed
    ultimately show ?thesis
      using sp ok(1) by (simp add: chain_ok_def split_on_append_no_sep [OF n])
  qed
qed

lemma chain_ok_group: "chain_ok p \<Longrightarrow> matches ns_group g \<Longrightarrow> chain_ok (p @ g)"
  by (auto simp: matches_group chain_ok_dot chain_ok_more)

lemma chain_ok_groups:
  "matches r q \<Longrightarrow> r = Star ns_group \<Longrightarrow> chain_ok p \<Longrightarrow> chain_ok (p @ q)"
proof (induction r q arbitrary: p rule: matches.induct)
  case (m_star_more a g q)
  then have "chain_ok (p @ g)" by (simp add: chain_ok_group)
  with m_star_more have "chain_ok ((p @ g) @ q)" by blast
  then show ?case by simp
qed simp_all

lemma join_with_concat: "join_with c (w # ws) = w @ concat (map ((#) c) ws)"
  by (induction ws arbitrary: w) simp_all

lemma groups_built:
  "list_all ident_later rest \<Longrightarrow> matches (Star ns_group) (concat (map ((#) NS_SEP) rest))"
proof (induction rest)
  case Nil
  show ?case by (simp add: m_star_none)
next
  case (Cons u rest)
  then have "matches ns_group (NS_SEP # u)" "matches (Star ns_group) (concat (map ((#) NS_SEP) rest))"
    by (auto simp: matches_group)
  from m_star_more [OF this] show ?case by simp
qed

lemma VALID_NS_NAMES_groups:
  "VALID_NS_NAMES = Seq (Seq (Class class_alpha) (Star (Class class_word))) (Star ns_group)"
  by (simp add: VALID_NS_NAMES_def ns_group_def)

lemma matches_ns_names: "matches VALID_NS_NAMES s = chain_ok s"
proof
  assume "matches VALID_NS_NAMES s"
  then obtain p q where s: "s = p @ q" and p: "ident_first p" and q: "matches (Star ns_group) q"
    unfolding VALID_NS_NAMES_groups by (auto elim!: matches_SeqE [of "Seq _ _"] simp: matches_first)
  from chain_ok_groups [OF q refl chain_ok_first [OF p]] s show "chain_ok s" by simp
next
  assume c: "chain_ok s"
  obtain seg0 rest where sp: "split_on NS_SEP s = seg0 # rest"
    using split_on_nonempty [of NS_SEP s] by (cases "split_on NS_SEP s") auto
  with c have ok: "ident_first seg0" "list_all ident_later rest"
    by (simp_all add: chain_ok_def)
  have "s = seg0 @ concat (map ((#) NS_SEP) rest)"
    using join_with_split_on [of NS_SEP s] sp by (simp add: join_with_concat)
  moreover have "matches VALID_NS_NAMES (seg0 @ concat (map ((#) NS_SEP) rest))"
    unfolding VALID_NS_NAMES_groups
    by (rule m_seq) (simp_all add: matches_first ok groups_built)
  ultimately show "matches VALID_NS_NAMES s" by simp
qed

lemma chain_ok_nonempty: "chain_ok s \<Longrightarrow> s \<noteq> []"
  by (auto simp: chain_ok_def ident_first_def)

lemma isnsnamevalid_iff:
  "isnsnamevalid s =
     (s = DEFAULT_NS \<or> chain_ok s \<or> (\<exists>b. s = b @ [CHR 0x0A] \<and> chain_ok b))"
  using chain_ok_nonempty [of s]
  by (auto simp: isnsnamevalid_def re_match_dollar_iff matches_ns_names) (simp add: DEFAULT_NS_def)

lemma ispropertynamevalid_iff:
  "ispropertynamevalid s = (ident_first s \<or> (\<exists>b. s = b @ [CHR 0x0A] \<and> ident_first b))"
  by (auto simp: ispropertynamevalid_def re_match_dollar_iff VALID_PROPERTY_NAMES_def
      matches_first ident_first_def)

lemma property_name_no_sep: "ispropertynamevalid s \<Longrightarrow> NS_SEP \<notin> set s"
  using words_no_sep [OF ident_first_words]
  by (auto simp: ispropertynamevalid_iff NS_SEP_def)


lemmas chain_eval_defs = chain_ok_def ident_first_def ident_later_def NS_SEP_def in_class_def
  class_alpha_def class_word_def class_ualpha_def ends_with_newline_def DEFAULT_NS_def

lemma getConfigManager_Some: "getConfigManager (Some mgr) kwargs = (Inr mgr, Some mgr)"
  by (simp add: getConfigManager_def)

lemma add_namespace_state:
  "\<exists>mgr'. snd (add_namespace mgr n kw) = mgr' \<and>
     (\<forall>k N. map_of (namespaces mgr) k = Some N \<longrightarrow> map_of (namespaces mgr') k = Some N)"
  by (auto simp: add_namespace_def Let_def has_key_def update_conv' split: sum.splits)

lemma getConfig_state:
  "\<exists>mgr'. snd (getConfig (Some mgr) c x orn []) = Some mgr' \<and>
     (\<forall>k N. map_of (namespaces mgr) k = Some N \<longrightarrow> map_of (namespaces mgr') k = Some N)"
proof (cases "x \<noteq> None \<and> x \<noteq> Some []")
  case False
  then show ?thesis by (auto simp: getConfig_def getConfigManager_Some)
next
  case True
  then obtain n where x: "x = Some n" "n \<noteq> []" by auto
  show ?thesis
  proof (cases "has_namespace mgr n")
    case (Inl e)
    with x show ?thesis by (simp add: getConfig_def getConfigManager_Some)
  next
    case (Inr b)
    show ?thesis
    proof (cases b)
      case True
      with Inr x show ?thesis
        by (simp add: getConfig_def getConfigManager_Some split: sum.splits)
    next
      case False
      obtain res m1 where a: "add_namespace mgr n [] = (res, m1)"
        by (cases "add_namespace mgr n []")
      with add_namespace_state [of mgr n "[]"]
      have "\<forall>k N. map_of (namespaces mgr) k = Some N \<longrightarrow> map_of (namespaces m1) k = Some N"
        by simp
      with False Inr x a show ?thesis
        by (simp add: getConfig_def getConfigManager_Some)
    qed
  qed
qed

lemma search_parents_state:
  "\<exists>mgr'. snd (search_parents (Some mgr) fq prop nss) = Some mgr' \<and>
     (\<forall>k N. map_of (namespaces mgr) k = Some N \<longrightarrow> map_of (namespaces mgr') k = Some N)"
proof (induction nss arbitrary: mgr)
  case Nil
  show ?case by simp
next
  case (Cons n nss)
  from getConfig_state [of mgr THIS_MODULE "Some n" False] obtain m1 where
    m1: "snd (getConfig (Some mgr) THIS_MODULE (Some n) False []) = Some m1"
      "\<forall>k N. map_of (namespaces mgr) k = Some N \<longrightarrow> map_of (namespaces m1) k = Some N"
    by blast
  from Cons.IH [of m1] obtain m2 where
    m2: "snd (search_parents (Some m1) fq prop nss) = Some m2"
      "\<forall>k N. map_of (namespaces m1) k = Some N \<longrightarrow> map_of (namespaces m2) k = Some N"
    by blast
  obtain res where r: "getConfig (Some mgr) THIS_MODULE (Some n) False [] = (res, Some m1)"
    using m1(1) by (cases "getConfig (Some mgr) THIS_MODULE (Some n) False []") auto
  show ?case
    using m1(2) m2 by (auto simp: r split: sum.splits bool.splits)
qed

lemma getConfig_creates:
  assumes "isnsnamevalid ns" and "\<not> has_key (namespaces mgr) ns"
  shows "getConfig (Some mgr) c (Some ns) orn []
           = (Inr [(''name'', AName ns)],
              Some (mgr\<lparr>namespaces := AList.update ns [(''name'', AName ns)] (namespaces mgr)\<rparr>))"
proof -
  from assms(1) have "ns \<noteq> []" by (simp add: isnsnamevalid_def)
  with assms show ?thesis
    by (simp add: getConfig_def getConfigManager_def has_namespace_def add_namespace_def
        ConfigNamespace_init_def subscript_def map_of_update_same Let_def)
qed

lemma getConfig_existing:
  assumes "isnsnamevalid ns" and "map_of (namespaces mgr) ns = Some N"
  shows "getConfig (Some mgr) c (Some ns) orn [] = (Inr N, Some mgr)"
proof -
  from assms(1) have "ns \<noteq> []" by (simp add: isnsnamevalid_def)
  with assms show ?thesis
    by (simp add: getConfig_def getConfigManager_def has_namespace_def get_namespace_def
        subscript_def has_key_def)
qed

lemma getConfigRecord_qualified:
  assumes "NS_SEP \<notin> set pn"
  shows "getConfigRecord g caller (ns @ NS_SEP # pn) orn =
     (if \<not> isnsnamevalid ns then (Inl (ConfigNamespaceBadName ns), g)
      else if \<not> ispropertynamevalid pn then (Inl (ConfigPropertyBadName pn), g)
      else
        (case getConfig g THIS_MODULE (Some ns) orn [] of
           (Inl e, g') \<Rightarrow> (Inl e, g')
         | (Inr nsv, g') \<Rightarrow>
             (case has_property nsv pn of
                Inl e \<Rightarrow> (Inl e, g')
              | Inr True \<Rightarrow> (getattr nsv pn, g')
              | Inr False \<Rightarrow>
                  (if orn then
                     (case getConfigManager g' [] of
                        (Inl e, g'') \<Rightarrow> (Inl e, g'')
                      | (Inr mgr, g'') \<Rightarrow>
                          search_parents g'' (ns @ NS_SEP # pn) pn (parent_namespaces mgr ns))
                   else (Inl (ConfigPropertyNotFound (ns @ NS_SEP # pn)), g')))))"
proof -
  have r: "rfind (ns @ NS_SEP # pn) NS_SEP = int (length ns)"
    using assms by (rule rfind_last)
  have n: "nat (int (length ns) + 1) = Suc (length ns)" by simp
  have d: "drop (Suc (length ns)) (ns @ NS_SEP # pn) = pn" by simp
  have t: "take (nat (int (length ns))) (ns @ NS_SEP # pn) = ns" by simp
  show ?thesis
    unfolding getConfigRecord_def Let_def r n d t by simp
qed

lemma getConfigRecord_after_lookup:
  assumes "isnsnamevalid ns" and "ispropertynamevalid prop"
    and "getConfig g THIS_MODULE (Some ns) orn [] = (Inr N, Some m1)"
    and "map_of (namespaces m1) ns = Some E"
  shows "\<exists>mgr'. snd (getConfigRecord g caller (ns @ NS_SEP # prop) orn) = Some mgr' \<and>
           map_of (namespaces mgr') ns = Some E"
proof -
  from search_parents_state [of m1 "ns @ NS_SEP # prop" "prop" "parent_namespaces m1 ns"]
  obtain m2 where m2: "snd (search_parents (Some m1) (ns @ NS_SEP # prop) prop
        (parent_namespaces m1 ns)) = Some m2"
    "map_of (namespaces m2) ns = Some E"
    using assms(4) by blast
  show ?thesis
    using assms m2
    by (auto simp: getConfigRecord_qualified [OF property_name_no_sep [OF assms(2)]]
        getConfigManager_Some split: sum.splits bool.splits)
qed

lemma getConfig_None:
  "getConfig None c x orn [] = getConfig (Some default_only) c x orn []"
  using registries_built by (simp add: getConfig_def getConfigManager_def)

lemma default_only_keys: "has_key (namespaces default_only) ns = (ns = DEFAULT_NS)"
  by (auto simp: default_only_def has_key_def)

lemma zzz_valid: "isnsnamevalid ''zzz''"
  by (simp add: name_eval_defs)

lemma bar_valid: "ispropertynamevalid ''bar''"
  by (simp add: name_eval_defs)

lemma default_valid: "isnsnamevalid DEFAULT_NS"
  by (simp add: isnsnamevalid_def DEFAULT_NS_def)

lemma zzz_bar_not_found:
  "getConfigRecord (Some default_only) ''app'' ''zzz.bar'' True
     = (Inl (ConfigPropertyNotFound ''zzz.bar''), Some with_zzz)"
proof -
  have fq: "''zzz.bar'' = ''zzz'' @ NS_SEP # ''bar''" by (simp add: NS_SEP_def)
  have n: "NS_SEP \<notin> set ''bar''" by (simp add: NS_SEP_def)
  have a: "\<not> has_key (namespaces default_only) ''zzz''"
    by (simp add: default_only_keys DEFAULT_NS_def)
  have c: "getConfig (Some default_only) THIS_MODULE (Some ''zzz'') True []
      = (Inr (empty_namespace ''zzz''), Some with_zzz)"
    using getConfig_creates [OF zzz_valid a, of THIS_MODULE True]
    by (simp add: with_zzz_def default_only_def empty_namespace_def DEFAULT_NS_def)
  have h: "has_property (empty_namespace n) ''bar'' = Inr False" for n
    using bar_valid by (simp add: has_property_def empty_namespace_def has_key_def)
  have p: "parent_namespaces with_zzz ''zzz'' = [''zzz'', DEFAULT_NS]"
    by (simp add: parent_namespaces_def parents_no_sep NS_SEP_def has_key_def with_zzz_def)
  have e1: "getConfig (Some with_zzz) THIS_MODULE (Some ''zzz'') False []
      = (Inr (empty_namespace ''zzz''), Some with_zzz)"
    by (rule getConfig_existing [OF zzz_valid]) (simp add: with_zzz_def DEFAULT_NS_def)
  have e2: "getConfig (Some with_zzz) THIS_MODULE (Some DEFAULT_NS) False []
      = (Inr (empty_namespace DEFAULT_NS), Some with_zzz)"
    by (rule getConfig_existing [OF default_valid]) (simp add: with_zzz_def)
  show ?thesis
    unfolding fq getConfigRecord_qualified [OF n]
    by (simp add: zzz_valid bar_valid c h getConfigManager_Some p e1 e2)
qed


lemma add_properties_outcome:
  "(\<exists>e. add_properties ns kwargs = (Inl e, ns)) \<or> (\<exists>rtn ns'. add_properties ns kwargs = (Inr rtn, ns'))"
proof (cases "case map_of kwargs ''properties'' of Some p \<Rightarrow> p | None \<Rightarrow> PDict kwargs")
  case (PDict items)
  show ?thesis
  proof (cases "build_props ns items []")
    case (Inl e)
    with PDict show ?thesis by (simp add: add_properties_def)
  next
    case (Inr ps)
    have "has_key ps n" if "n \<in> set (map fst ps)" for n
      using that by (simp add: has_key_iff_fst)
    then have "\<forall>n \<in> set (map fst ps). has_key (dict_update ns ps) n"
      by (simp only: has_key_dict_update) blast
    from collect_rtn_succeeds [OF this] obtain out where
      "collect_rtn (dict_update ns ps) (map fst ps) [] = Inr out" by blast
    with PDict Inr show ?thesis by (simp add: add_properties_def Let_def)
  qed
qed (simp_all add: add_properties_def)


lemma getdictentry_no_hit:
  assumes "path_lookup (dictconfig self) ks = None"
  shows "(\<exists>e. getdictentry self ks = Inl e) \<or> (\<exists>x. getdictentry self ks = Inr (False, x))"
proof (cases "getdictentry self ks")
  case (Inl e)
  then show ?thesis by simp
next
  case (Inr p)
  obtain got x where p: "p = (got, x)" by (cases p)
  with Inr assms getdictentry_hit [of self ks x] have "\<not> got" by auto
  with Inr p show ?thesis by simp
qed

lemma dictalias_loop_no_hit:
  "list_all (\<lambda>kp. path_lookup (dictconfig self) (keys_of kp) = None) kps \<Longrightarrow>
   fst (dictalias_loop call self kps r) \<noteq> Inr True \<and> snd (dictalias_loop call self kps r) = r"
proof (induction kps)
  case Nil
  show ?case by simp
next
  case (Cons kp kps)
  then have n: "path_lookup (dictconfig self) (keys_of kp) = None"
    and ih: "fst (dictalias_loop call self kps r) \<noteq> Inr True \<and>
             snd (dictalias_loop call self kps r) = r"
    by simp_all
  from getdictentry_no_hit [OF n] ih show ?case
    by (auto simp: getdictentry_keypath)
qed

lemma dictalias_probe_no_hit:
  "list_all (\<lambda>kp. path_lookup (dictconfig self) (keys_of kp) = None) (dictalias self) \<Longrightarrow>
   fst (dictalias_probe call self r) \<noteq> Inr True \<and> snd (dictalias_probe call self r) = r"
  using dictalias_loop_no_hit [of self "dictalias self" call r]
  by (simp add: dictalias_probe_def)


lemma add_properties_rejected:
  "has_key ns ''add_properties'' \<or> kw_clash [''self''] kwargs \<Longrightarrow>
   add_properties ns kwargs = (Inl TypeError, ns)"
  by (auto simp: add_properties_def)


section \<open>The claims\<close>

text \<open>
  C3. A ValidatingProperty with a validate hook: when the validator raises on the
  assignment of a value, the setter raises the validator's exception and the record is
  exactly what it was before (stored value and hasValue flag); a value assigned
  successfully before stays the readable value.
\<close>

theorem rejected_assignment_keeps_record:
  assumes "callable (rec_validate r)"
    and "call_value call (rec_validate r) [PStr (rec_name r), v2] = Inl e"
  shows "set_value call r v2 = (Inl e, r) \<and>
         (\<forall>r0 v1 x. set_value call r0 v1 = (Inr x, r) \<longrightarrow>
            get_value (snd (set_value call r v2)) = Inr v1)"
proof -
  from assms(1) have t: "truthy (rec_validate r)"
    by (cases "rec_validate r") simp_all
  have a: "set_value call r v2 = (Inl e, r)"
    using assms t by (simp add: set_value_def)
  have "get_value r = Inr v1" if "set_value call r0 v1 = (Inr x, r)" for r0 v1 x
    using that by (auto simp: set_value_def get_value_def Let_def split: sum.splits if_splits)
  with a show ?thesis by simp
qed

theorem rejected_assignment_keeps_record_witness:
  "set_value tstvalidate (foo5\<lparr>rec_value := PInt 3\<rparr>) (PInt 5) = (Inr (PInt 5), foo5) \<and>
   set_value tstvalidate foo5 (PInt 12) = (Inl (UserException 0), foo5) \<and>
   get_value (snd (set_value tstvalidate foo5 (PInt 12))) = Inr (PInt 5)"
proof -
  have c: "callable (rec_validate foo5)" by (simp add: foo5_def)
  have v: "call_value tstvalidate (rec_validate foo5) [PStr (rec_name foo5), PInt 12]
             = Inl (UserException 0)"
    by (simp add: foo5_def tstvalidate_def)
  have s: "set_value tstvalidate (foo5\<lparr>rec_value := PInt 3\<rparr>) (PInt 5) = (Inr (PInt 5), foo5)"
    by (simp add: foo5_def tstvalidate_def set_value_def)
  from rejected_assignment_keeps_record [OF c v] s show ?thesis by blast
qed



text \<open>
  C5. \<open>parent_namespaces\<close> of a dotted name returns, nearest first, exactly the names
  of its stripping chain that exist in the registry, followed by the default-namespace
  sentinel. The chain is ordered from the longest name to the shortest, and each of its
  names is the given name or a prefix of it that ends just before a separator, so a
  sibling never appears.
\<close>

theorem parent_namespaces_chain:
  "parent_namespaces mgr nspc
     = filter (has_key (namespaces mgr)) (strip_chain nspc) @ [DEFAULT_NS] \<and>
   sorted_wrt (\<lambda>a b. length b < length a) (strip_chain nspc) \<and>
   (\<forall>x \<in> set (strip_chain nspc). x = nspc \<or> (\<exists>rest. nspc = x @ NS_SEP # rest))"
  using strip_chain_ancestors [of _ nspc]
  by (auto simp: parent_namespaces_def parents_strip_chain strip_chain_nearest_first)


theorem parent_namespaces_chain_witness:
  "parent_namespaces default_only ''a.b.c'' = [DEFAULT_NS] \<and>
   parent_namespaces with_ab ''a.b.c'' = [''a.b'', DEFAULT_NS] \<and>
   parent_namespaces with_all ''a.b.c'' = [''a.b.c'', ''a.b'', ''a'', DEFAULT_NS]"
  using parent_namespaces_chain [of default_only "''a.b.c''", THEN conjunct1]
    parent_namespaces_chain [of with_ab "''a.b.c''", THEN conjunct1]
    parent_namespaces_chain [of with_all "''a.b.c''", THEN conjunct1]
  by (simp add: strip_chain_abc has_key_def default_only_def with_ab_def with_all_def
      DEFAULT_NS_def)

text \<open>
  C2. With a registry that has the namespace \<open>pkg\<close> and no namespace \<open>pkg.mod\<close>,
  \<open>getConfig("pkg.mod", ornearest=True)\<close> does not return the namespace \<open>pkg\<close>: it
  returns a namespace named \<open>pkg.mod\<close> without properties.
\<close>

theorem getConfig_nearest_counterexample:
  "fst (getConfig (Some pkg_registry) ''app'' (Some ''pkg.mod'') True [])
     = Inr [(''name'', AName ''pkg.mod'')] \<and>
   fst (getConfig (Some pkg_registry) ''app'' (Some ''pkg.mod'') True []) \<noteq> Inr pkg_namespace"
  using pkg_mod_valid pkg_mod_absent
  by (simp add: getConfig_def getConfigManager_def has_namespace_def add_namespace_def
      ConfigNamespace_init_def subscript_def map_of_update_same Let_def pkg_namespace_def)

text \<open>
  C2, as the code has it. For a valid name that the registry lacks, \<open>getConfig\<close> with
  that name creates a namespace of that name without properties, adds it to the
  registry and returns it, whatever \<open>ornearest\<close> is. Without a name, \<open>getConfig\<close>
  returns what \<open>get_namespace\<close> gives for the name of the calling module, which with
  \<open>ornearest\<close> is the nearest existing ancestor.
\<close>

theorem getConfig_creates_namespace:
  assumes "isnsnamevalid nspc" and "\<not> has_key (namespaces mgr) nspc"
  shows "getConfig (Some mgr) caller (Some nspc) ornearest []
           = (Inr [(''name'', AName nspc)],
              Some (mgr\<lparr>namespaces :=
                      AList.update nspc [(''name'', AName nspc)] (namespaces mgr)\<rparr>)) \<and>
         getConfig (Some mgr) caller None ornearest []
           = (get_namespace mgr caller ornearest, Some mgr)"
proof -
  from assms(1) have "nspc \<noteq> []" by (simp add: isnsnamevalid_def)
  with assms show ?thesis
    by (simp add: getConfig_def getConfigManager_def has_namespace_def add_namespace_def
        ConfigNamespace_init_def subscript_def map_of_update_same Let_def)
qed

theorem getConfig_creates_namespace_witness:
  "getConfig (Some pkg_registry) ''app'' (Some ''pkg.mod'') True []
     = (Inr (empty_namespace ''pkg.mod''),
        Some (pkg_registry\<lparr>namespaces := namespaces pkg_registry
                @ [(''pkg.mod'', empty_namespace ''pkg.mod'')]\<rparr>)) \<and>
   getConfig (Some pkg_registry) ''pkg.mod'' None True [] = (Inr pkg_namespace, Some pkg_registry)"
proof -
  have "parent_namespaces pkg_registry ''pkg.mod'' = [''pkg'', DEFAULT_NS]"
    by (simp add: parent_namespaces_def parents_strip_chain strip_chain_def NS_SEP_def upt_rec
        has_key_def pkg_registry_def DEFAULT_NS_def)
  then have "get_namespace pkg_registry ''pkg.mod'' True = Inr pkg_namespace"
    using pkg_mod_valid pkg_mod_absent
    by (simp add: get_namespace_def subscript_def) (simp add: pkg_registry_def DEFAULT_NS_def)
  with getConfig_creates_namespace [OF pkg_mod_valid pkg_mod_absent, of "''app''" True]
    getConfig_creates_namespace [OF pkg_mod_valid pkg_mod_absent, of "''pkg.mod''" True]
  show ?thesis
    by (simp add: empty_namespace_def) (simp add: pkg_registry_def DEFAULT_NS_def)
qed


text \<open>
  C7. \<open>isnsnamevalid\<close> accepts \<open>a._b\<close>, a name whose second segment starts with an
  underscore and so does not match \<open>[A-Za-z][A-Za-z0-9_]*\<close>.
\<close>

theorem underscore_segment_counterexample:
  "isnsnamevalid ''a._b'' \<and> split_on NS_SEP ''a._b'' = [''a'', ''_b''] \<and> \<not> ident_first ''_b''"
  by (simp add: name_eval_defs NS_SEP_def ident_first_def)

text \<open>
  C7, as the code has it. A string that does not end in a newline is accepted exactly
  when it is the default-namespace sentinel, or consists of one or more dot-separated
  segments of which the first matches \<open>[A-Za-z][A-Za-z0-9_]*\<close> and every later one
  matches \<open>[_A-Za-z][A-Za-z0-9_]*\<close>. A segment that starts with a digit, an empty
  segment and a first segment that starts with an underscore are rejected.
\<close>

theorem isnsnamevalid_grammar:
  assumes "\<not> ends_with_newline s"
  shows "isnsnamevalid s = (s = DEFAULT_NS \<or> chain_ok s)"
proof -
  have "s \<noteq> b @ [CHR 0x0A]" for b
    using assms by (auto simp: ends_with_newline_def)
  then show ?thesis by (simp add: isnsnamevalid_iff)
qed

theorem isnsnamevalid_grammar_witness:
  "isnsnamevalid ''pkg.mod'' \<and> isnsnamevalid ''a._b'' \<and> isnsnamevalid ''__DEFAULT'' \<and>
   \<not> isnsnamevalid ''a.1b'' \<and> \<not> isnsnamevalid ''_a.b'' \<and> \<not> isnsnamevalid ''a..b''"
proof -
  have 1: "isnsnamevalid ''pkg.mod''"
    using isnsnamevalid_grammar [of "''pkg.mod''"] by (simp add: chain_eval_defs)
  have 2: "isnsnamevalid ''a._b''"
    using isnsnamevalid_grammar [of "''a._b''"] by (simp add: chain_eval_defs)
  have 3: "isnsnamevalid ''__DEFAULT''"
    using isnsnamevalid_grammar [of "''__DEFAULT''"] by (simp add: chain_eval_defs)
  have 4: "\<not> isnsnamevalid ''a.1b''"
    using isnsnamevalid_grammar [of "''a.1b''"] by (simp add: chain_eval_defs)
  have 5: "\<not> isnsnamevalid ''_a.b''"
    using isnsnamevalid_grammar [of "''_a.b''"] by (simp add: chain_eval_defs)
  have 6: "\<not> isnsnamevalid ''a..b''"
    using isnsnamevalid_grammar [of "''a..b''"] by (simp add: chain_eval_defs)
  from 1 2 3 4 5 6 show ?thesis by simp
qed

text \<open>
  C9. For the qualified name \<open>good.!badname\<close>, whose namespace part is valid and absent
  from the registry, \<open>getConfigRecord\<close> raises ConfigPropertyBadName and leaves the
  registry as it was: no namespace \<open>good\<close> is added.
\<close>

theorem invalid_property_counterexample:
  "isnsnamevalid ''good'' \<and> \<not> has_key (namespaces default_only) ''good'' \<and>
   getConfigRecord (Some default_only) ''app'' ''good.!badname'' True
     = (Inl (ConfigPropertyBadName ''!badname''), Some default_only)"
  by (simp add: getConfigRecord_def Let_def NS_SEP_def name_eval_defs has_key_def
      default_only_def)

text \<open>
  C9, as the code has it. For a qualified name \<open>ns.prop\<close> whose namespace part is a
  valid namespace name absent from the singleton registry (or the registry is not yet
  instantiated) and whose property part is a valid property name, \<open>getConfigRecord\<close>
  leaves a registry that has the namespace \<open>ns\<close> without properties, whatever the
  call returns or raises, ConfigPropertyNotFound included. When the property part is
  not a valid property name, the call raises ConfigPropertyBadName before any lookup
  and the registry is unchanged.
\<close>

theorem getConfigRecord_creates_namespace:
  assumes "isnsnamevalid ns"
    and "g = None \<or> (\<exists>mgr. g = Some mgr \<and> \<not> has_key (namespaces mgr) ns)"
  shows "(ispropertynamevalid prop \<longrightarrow>
            (\<exists>mgr'. snd (getConfigRecord g caller (ns @ NS_SEP # prop) orn) = Some mgr' \<and>
               map_of (namespaces mgr') ns = Some [(''name'', AName ns)])) \<and>
         (NS_SEP \<notin> set prop \<and> \<not> ispropertynamevalid prop \<longrightarrow>
            getConfigRecord g caller (ns @ NS_SEP # prop) orn
              = (Inl (ConfigPropertyBadName prop), g))"
proof (intro conjI impI)
  assume p: "ispropertynamevalid prop"
  have "\<exists>N m1. getConfig g THIS_MODULE (Some ns) orn [] = (Inr N, Some m1) \<and>
      map_of (namespaces m1) ns = Some [(''name'', AName ns)]"
  proof (cases "\<exists>mgr. g = Some mgr \<and> \<not> has_key (namespaces mgr) ns")
    case True
    then obtain mgr where m: "g = Some mgr" "\<not> has_key (namespaces mgr) ns" by blast
    from getConfig_creates [OF assms(1) m(2), of THIS_MODULE orn] m(1) show ?thesis
      by (simp add: map_of_update_same)
  next
    case False
    with assms(2) have g: "g = None" by blast
    show ?thesis
    proof (cases "ns = DEFAULT_NS")
      case True
      then have "map_of (namespaces default_only) ns = Some [(''name'', AName ns)]"
        by (simp add: default_only_def empty_namespace_def)
      from getConfig_existing [OF assms(1) this, of THIS_MODULE orn] this g show ?thesis
        by (simp add: getConfig_None)
    next
      case False
      then have "\<not> has_key (namespaces default_only) ns" by (simp add: default_only_keys)
      from getConfig_creates [OF assms(1) this, of THIS_MODULE orn] g show ?thesis
        by (simp add: getConfig_None map_of_update_same)
    qed
  qed
  then obtain N m1 where c: "getConfig g THIS_MODULE (Some ns) orn [] = (Inr N, Some m1)"
    and e: "map_of (namespaces m1) ns = Some [(''name'', AName ns)]" by blast
  show "\<exists>mgr'. snd (getConfigRecord g caller (ns @ NS_SEP # prop) orn) = Some mgr' \<and>
          map_of (namespaces mgr') ns = Some [(''name'', AName ns)]"
    by (rule getConfigRecord_after_lookup [OF assms(1) p c e])
next
  assume "NS_SEP \<notin> set prop \<and> \<not> ispropertynamevalid prop"
  then have n: "NS_SEP \<notin> set prop" and b: "\<not> ispropertynamevalid prop"
    by simp_all
  from assms(1) b show "getConfigRecord g caller (ns @ NS_SEP # prop) orn
      = (Inl (ConfigPropertyBadName prop), g)"
    by (simp add: getConfigRecord_qualified [OF n])
qed

theorem getConfigRecord_creates_namespace_witness:
  "getConfigRecord (Some default_only) ''app'' ''zzz.bar'' True
     = (Inl (ConfigPropertyNotFound ''zzz.bar''), Some with_zzz) \<and>
   map_of (namespaces with_zzz) ''zzz'' = Some [(''name'', AName ''zzz'')] \<and>
   getConfigRecord (Some default_only) ''app'' ''zzz.!bad'' True
     = (Inl (ConfigPropertyBadName ''!bad''), Some default_only)"
proof -
  have a: "Some default_only = None \<or>
      (\<exists>mgr. Some default_only = Some mgr \<and> \<not> has_key (namespaces mgr) ''zzz'')"
    by (simp add: default_only_keys DEFAULT_NS_def)
  note t = getConfigRecord_creates_namespace [OF zzz_valid a, of _ "''app''" True]
  from t [of "''bar''", THEN conjunct1] bar_valid
  have "\<exists>mgr'. snd (getConfigRecord (Some default_only) ''app'' ''zzz.bar'' True) = Some mgr' \<and>
      map_of (namespaces mgr') ''zzz'' = Some [(''name'', AName ''zzz'')]"
    by (simp add: NS_SEP_def)
  with zzz_bar_not_found
  have 1: "map_of (namespaces with_zzz) ''zzz'' = Some [(''name'', AName ''zzz'')]" by simp
  have "NS_SEP \<notin> set ''!bad'' \<and> \<not> ispropertynamevalid ''!bad''"
    by (simp add: NS_SEP_def name_eval_defs)
  with t [of "''!bad''", THEN conjunct2]
  have 2: "getConfigRecord (Some default_only) ''app'' ''zzz.!bad'' True
      = (Inl (ConfigPropertyBadName ''!bad''), Some default_only)"
    by (simp add: NS_SEP_def)
  from zzz_bar_not_found 1 2 show ?thesis by simp
qed


text \<open>
  C10. On the freshly constructed namespace
  \<open>ConfigNamespace('foo', has_property=1, add_property=2)\<close> the string \<open>name\<close> does not
  behave as an existing property: \<open>has_property("name")\<close> and \<open>add_property("name", ...)\<close>
  raise TypeError, because the entries of the attribute dictionary shadow the methods.
\<close>

theorem shadowed_method_counterexample:
  "ConfigNamespace_init ''foo'' [(''has_property'', PInt 1), (''add_property'', PInt 2)]
     = Inr shadowed_ns \<and>
   has_property shadowed_ns ''name'' = Inl TypeError \<and>
   add_property shadowed_ns ''name'' [(''value'', PInt 3)] = (Inl TypeError, shadowed_ns)"
  by (simp add: ConfigNamespace_init_def add_properties_def name_eval_defs has_key_def
      kw_clash_def ConfigPropertyRecordExt_init_def dict_update_def getattr_def
      shadowed_ns_def has_property_def add_property_def)

text \<open>
  C10, as the code has it. Every namespace that the public interface produces has the
  key \<open>name\<close> in its attribute dictionary, although no property of that name was added.
  So \<open>has_property("name")\<close> returns true on every such namespace without a property
  named \<open>has_property\<close>, and \<open>add_property("name", ...)\<close> raises
  ConfigNamespaceDuplicateProperty on every such namespace without a property named
  \<open>add_property\<close>, for all keywords but \<open>self\<close> and \<open>name\<close>; a namespace constructed
  without initial properties is one of these. Where a property has the name of the
  method, or a keyword repeats a parameter of \<open>add_property\<close>, the call raises
  TypeError.
\<close>

theorem name_is_always_a_property:
  assumes "reachable_ns ns"
  shows "has_key ns ''name'' \<and>
         (\<not> has_key ns ''has_property'' \<longrightarrow> has_property ns ''name'' = Inr True) \<and>
         (\<not> has_key ns ''add_property'' \<and> \<not> kw_clash [''self'', ''name''] kwargs \<longrightarrow>
            add_property ns ''name'' kwargs
              = (Inl (ConfigNamespaceDuplicateProperty ''name''), ns)) \<and>
         (has_key ns ''has_property'' \<longrightarrow> has_property ns n = Inl TypeError) \<and>
         (has_key ns ''add_property'' \<or> kw_clash [''self'', ''name''] kwargs \<longrightarrow>
            add_property ns n kwargs = (Inl TypeError, ns)) \<and>
         (\<forall>nspc fresh. ConfigNamespace_init nspc [] = Inr fresh \<longrightarrow>
            has_property fresh ''name'' = Inr True \<and>
            (\<not> kw_clash [''self'', ''name''] kwargs \<longrightarrow>
               add_property fresh ''name'' kwargs
                 = (Inl (ConfigNamespaceDuplicateProperty ''name''), fresh)))"
proof -
  note k = reachable_has_name [OF assms]
  have fresh: "has_property fresh ''name'' = Inr True \<and>
      (\<not> kw_clash [''self'', ''name''] kwargs \<longrightarrow>
         add_property fresh ''name'' kwargs
           = (Inl (ConfigNamespaceDuplicateProperty ''name''), fresh))"
    if "ConfigNamespace_init nspc [] = Inr fresh" for nspc fresh
  proof -
    from that have "fresh = [(''name'', AName nspc)]"
      by (simp add: ConfigNamespace_init_def split: if_splits)
    then show ?thesis
      using name_is_property_name by (simp add: has_property_def add_property_def has_key_def)
  qed
  from k name_is_property_name fresh show ?thesis
    by (auto simp: has_property_def add_property_def)
qed

theorem name_is_always_a_property_witness:
  "ConfigNamespace_init ''foo'' [] = Inr [(''name'', AName ''foo'')] \<and>
   has_property [(''name'', AName ''foo'')] ''name'' = Inr True \<and>
   add_property [(''name'', AName ''foo'')] ''name'' [(''value'', PInt 1)]
     = (Inl (ConfigNamespaceDuplicateProperty ''name''), [(''name'', AName ''foo'')]) \<and>
   has_property shadowed_ns ''name'' = Inl TypeError \<and>
   add_property [(''name'', AName ''foo'')] ''name'' [(''name'', PInt 1)]
     = (Inl TypeError, [(''name'', AName ''foo'')])"
proof -
  have i: "ConfigNamespace_init ''foo'' [] = Inr [(''name'', AName ''foo'')]"
    using foo_ns by (simp add: ConfigNamespace_init_def)
  have s: "ConfigNamespace_init ''foo'' [(''has_property'', PInt 1), (''add_property'', PInt 2)]
     = Inr shadowed_ns"
    by (simp add: ConfigNamespace_init_def add_properties_def name_eval_defs has_key_def
      kw_clash_def ConfigPropertyRecordExt_init_def dict_update_def getattr_def
      shadowed_ns_def)
  note t1 = name_is_always_a_property [OF reachable_ns.fresh [OF i], of "[(''value'', PInt 1)]"]
  note t2 = name_is_always_a_property [OF reachable_ns.fresh [OF s], of _ "''name''"]
  note t3 = name_is_always_a_property [OF reachable_ns.fresh [OF i], of "[(''name'', PInt 1)]" "''name''"]
  have 1: "has_property [(''name'', AName ''foo'')] ''name'' = Inr True"
    using t1 by (simp add: has_key_def)
  have 2: "add_property [(''name'', AName ''foo'')] ''name'' [(''value'', PInt 1)]
     = (Inl (ConfigNamespaceDuplicateProperty ''name''), [(''name'', AName ''foo'')])"
    using t1 by (simp add: has_key_def kw_clash_def)
  have 3: "has_property shadowed_ns ''name'' = Inl TypeError"
    using t2 by (simp add: has_key_def shadowed_ns_def)
  have 4: "add_property [(''name'', AName ''foo'')] ''name'' [(''name'', PInt 1)]
     = (Inl TypeError, [(''name'', AName ''foo'')])"
    using t3 by (simp add: kw_clash_def)
  from i 1 2 3 4 show ?thesis by simp
qed


text \<open>
  C6. A key path is a hit of the dictionary source exactly when every key of the chain
  resolves in the nested mapping, whatever the value reached. The first configured path
  that resolves, after paths that stop at a missing key, makes the probe commit the
  value it leads to, and \<open>resolve\<close> commits that value when no earlier source yields
  one; when no configured path resolves, the probe is no hit and leaves the destination
  property as it was. With the path \<open>["a", "b", "foo"]\<close> over
  \<open>{"a": {"b": {"foo": None}}}\<close>, \<open>resolve\<close> commits \<open>None\<close>.
\<close>

theorem dictionary_hit_is_presence:
  "(getdictentry self ks = Inr (True, v)) = (path_lookup (dictconfig self) ks = Some v) \<and>
   (\<forall>pre kp post w.
      dictconfig self \<noteq> PNone \<and> dictalias self = pre @ kp # post \<and>
      list_all (\<lambda>k. path_misses (dictconfig self) (keys_of k)) pre \<and>
      path_lookup (dictconfig self) (keys_of kp) = Some w \<longrightarrow>
      dictalias_probe call self r = found call (dictformat self) r w \<and>
      (argalias self = PNone \<and> env_absent environ self \<and> cfg_absent self \<longrightarrow>
         resolve call environ self r = commit call (dictformat self) r w)) \<and>
   (list_all (\<lambda>kp. path_lookup (dictconfig self) (keys_of kp) = None) (dictalias self) \<longrightarrow>
      fst (dictalias_probe call self r) \<noteq> Inr True \<and> snd (dictalias_probe call self r) = r)"
proof (intro conjI allI impI)
  show "(getdictentry self ks = Inr (True, v)) = (path_lookup (dictconfig self) ks = Some v)"
    by (rule getdictentry_hit)
next
  fix pre kp post w
  assume "dictconfig self \<noteq> PNone \<and> dictalias self = pre @ kp # post \<and>
      list_all (\<lambda>k. path_misses (dictconfig self) (keys_of k)) pre \<and>
      path_lookup (dictconfig self) (keys_of kp) = Some w"
  then show "dictalias_probe call self r = found call (dictformat self) r w"
    by (simp add: dictalias_probe_def dictalias_loop_found)
next
  fix pre kp post w
  assume "dictconfig self \<noteq> PNone \<and> dictalias self = pre @ kp # post \<and>
      list_all (\<lambda>k. path_misses (dictconfig self) (keys_of k)) pre \<and>
      path_lookup (dictconfig self) (keys_of kp) = Some w"
    and "argalias self = PNone \<and> env_absent environ self \<and> cfg_absent self"
  then show "resolve call environ self r = commit call (dictformat self) r w"
    using resolve_dict [of self environ pre kp post w call r] by simp
next
  assume "list_all (\<lambda>kp. path_lookup (dictconfig self) (keys_of kp) = None) (dictalias self)"
  then show "fst (dictalias_probe call self r) \<noteq> Inr True"
    by (simp add: dictalias_probe_no_hit)
next
  assume "list_all (\<lambda>kp. path_lookup (dictconfig self) (keys_of kp) = None) (dictalias self)"
  then show "snd (dictalias_probe call self r) = r"
    by (simp add: dictalias_probe_no_hit)
qed

theorem dictionary_hit_is_presence_witness:
  "getdictentry null_dict [''a'', ''b'', ''foo''] = Inr (True, PNone) \<and>
   resolve no_calls test_environ null_dict unset_foo
     = (Inr PNone, unset_foo\<lparr>rec_value := PNone, rec_hasvalue := True\<rparr>) \<and>
   resolve no_calls test_environ no_cfg unset_foo
     = (Inr (PInt 4), unset_foo\<lparr>rec_value := PInt 4, rec_hasvalue := True\<rparr>) \<and>
   fst (dictalias_probe no_calls missing_path unset_foo) \<noteq> Inr True \<and>
   snd (dictalias_probe no_calls missing_path unset_foo) = unset_foo"
proof -
  note t1 = dictionary_hit_is_presence [of null_dict "[''a'', ''b'', ''foo'']" PNone no_calls
      unset_foo test_environ]
  note t2 = dictionary_hit_is_presence [of no_cfg _ _ no_calls unset_foo test_environ]
  note t3 = dictionary_hit_is_presence [of missing_path _ _ no_calls unset_foo test_environ]
  have 1: "getdictentry null_dict [''a'', ''b'', ''foo''] = Inr (True, PNone)"
    using t1 [THEN conjunct1] by (simp add: null_dict_def)
  have 2: "resolve no_calls test_environ null_dict unset_foo
      = (Inr PNone, unset_foo\<lparr>rec_value := PNone, rec_hasvalue := True\<rparr>)"
    using t1 [THEN conjunct2, THEN conjunct1, rule_format,
        of "[]" "Keys [''a'', ''b'', ''foo'']" "[]" PNone]
      commit_unset_foo [of no_calls PNone]
    by (simp add: null_dict_def env_absent_def cfg_absent_def)
  have 3: "resolve no_calls test_environ no_cfg unset_foo
      = (Inr (PInt 4), unset_foo\<lparr>rec_value := PInt 4, rec_hasvalue := True\<rparr>)"
    using t2 [THEN conjunct2, THEN conjunct1, rule_format,
        of "[]" "Keys [''first'', ''second'', ''foo'']" "[]" "PInt 4"]
      commit_unset_foo [of no_calls "PInt 4"]
    by (simp add: no_cfg_def no_env_def no_arg_def all_sources_def env_absent_def cfg_absent_def)
  have 4: "fst (dictalias_probe no_calls missing_path unset_foo) \<noteq> Inr True \<and>
      snd (dictalias_probe no_calls missing_path unset_foo) = unset_foo"
    using t3 [THEN conjunct2, THEN conjunct2]
    by (simp add: missing_path_def null_dict_def)
  from 1 2 3 4 show ?thesis by simp
qed

text \<open>
  C8. With the path \<open>["a", "b"]\<close> over \<open>{"a": 1}\<close> as the only source, no default and a
  destination property that was never assigned, no source yields a value, yet
  \<open>resolve\<close> raises TypeError and not ConfigPropertyValueNotSet: \<open>_getdictentry\<close>
  subscripts the integer and catches only KeyError. Over \<open>{"a": {}}\<close>, where the path
  stops at a missing key, \<open>resolve\<close> raises ConfigPropertyValueNotSet.
\<close>

theorem resolve_scalar_path_raises_TypeError:
  "resolve no_calls test_environ scalar_path unset_foo = (Inl TypeError, unset_foo) \<and>
   resolve no_calls test_environ (scalar_path\<lparr>dictconfig := PDict [(''a'', PDict [])]\<rparr>) unset_foo
     = (Inl (ConfigPropertyValueNotSet ''foo''), unset_foo)"
  by (simp add: resolve_def argalias_probe_def envalias_probe_def cfgalias_probe_def
      dictalias_probe_def default_probe_def getdictentry_def subscript_def get_value_def
      scalar_path_def null_dict_def unset_foo_def)


text \<open>
  C4. \<open>add_properties\<close> is all-or-nothing. Whenever the call raises, the namespace
  is unchanged. The call raises TypeError when a property named \<open>add_properties\<close>
  shadows the method or a keyword is named \<open>self\<close>, and it raises when any entry of the
  batch fails (its name is not a property name, the name exists already, or its record
  cannot be constructed); otherwise the call returns and the namespace has exactly its
  old names and the names of the batch. On the namespace without properties the batch
  \<open>{"ok": {"value": 1}, "!bad": 2}\<close> raises ConfigPropertyBadName and adds nothing.
\<close>

theorem add_properties_all_or_nothing:
  "(\<forall>e. fst (add_properties ns kwargs) = Inl e \<longrightarrow> snd (add_properties ns kwargs) = ns) \<and>
   (has_key ns ''add_properties'' \<or> kw_clash [''self''] kwargs \<longrightarrow>
      add_properties ns kwargs = (Inl TypeError, ns)) \<and>
   ((case map_of kwargs ''properties'' of Some p \<Rightarrow> p | None \<Rightarrow> PDict kwargs) = PDict items \<longrightarrow>
      (list_ex (entry_fails ns) items \<longrightarrow> (\<exists>e. add_properties ns kwargs = (Inl e, ns))) \<and>
      (\<not> list_ex (entry_fails ns) items \<and> \<not> has_key ns ''add_properties'' \<and>
       \<not> kw_clash [''self''] kwargs \<longrightarrow>
         (\<exists>rtn ns'. add_properties ns kwargs = (Inr rtn, ns') \<and>
            (\<forall>k. has_key ns' k = (has_key ns k \<or> k \<in> fst ` set items)))))"
proof (intro conjI allI impI)
  fix e
  assume "fst (add_properties ns kwargs) = Inl e"
  with add_properties_outcome [of ns kwargs] show "snd (add_properties ns kwargs) = ns"
    by auto
next
  assume "has_key ns ''add_properties'' \<or> kw_clash [''self''] kwargs"
  then show "add_properties ns kwargs = (Inl TypeError, ns)"
    by (rule add_properties_rejected)
next
  assume sel: "(case map_of kwargs ''properties'' of Some p \<Rightarrow> p | None \<Rightarrow> PDict kwargs) = PDict items"
    and f: "list_ex (entry_fails ns) items"
  from f build_props_fails_iff [of ns items "[]"] obtain e where "build_props ns items [] = Inl e"
    by blast
  with sel show "\<exists>e. add_properties ns kwargs = (Inl e, ns)"
    by (cases "has_key ns ''add_properties'' \<or> kw_clash [''self''] kwargs")
      (auto simp: add_properties_def)
next
  assume sel: "(case map_of kwargs ''properties'' of Some p \<Rightarrow> p | None \<Rightarrow> PDict kwargs) = PDict items"
    and ok: "\<not> list_ex (entry_fails ns) items \<and> \<not> has_key ns ''add_properties'' \<and>
       \<not> kw_clash [''self''] kwargs"
  then have nf: "\<not> list_ex (entry_fails ns) items"
    and call: "\<not> has_key ns ''add_properties''" "\<not> kw_clash [''self''] kwargs"
    by simp_all
  from nf build_props_fails_iff [of ns items "[]"] obtain ps where ps: "build_props ns items [] = Inr ps"
    by (cases "build_props ns items []") auto
  have keys: "has_key ps k = (k \<in> fst ` set items)" for k
    using build_props_keys [OF ps, of k] by (simp add: has_key_Nil)
  show "\<exists>rtn ns'. add_properties ns kwargs = (Inr rtn, ns') \<and>
      (\<forall>k. has_key ns' k = (has_key ns k \<or> k \<in> fst ` set items))"
  proof (cases "ps = []")
    case True
    with keys have "k \<notin> fst ` set items" for k
      using has_key_Nil by metis
    with sel ps True call show ?thesis by (simp add: add_properties_def)
  next
    case nonempty: False
    have "has_key ps n" if "n \<in> set (map fst ps)" for n
      using that by (simp add: has_key_iff_fst)
    then have "\<forall>n \<in> set (map fst ps). has_key (dict_update ns ps) n"
      by (simp only: has_key_dict_update) blast
    from collect_rtn_succeeds [OF this] obtain out where
      "collect_rtn (dict_update ns ps) (map fst ps) [] = Inr out" by blast
    with sel ps nonempty keys call show ?thesis
      by (simp add: add_properties_def Let_def has_key_dict_update)
  qed
qed

theorem add_properties_all_or_nothing_witness:
  "add_properties empty_ns bad_batch = (Inl (ConfigPropertyBadName ''!bad''), empty_ns) \<and>
   (\<exists>rtn ns'. add_properties empty_ns good_batch = (Inr rtn, ns') \<and>
      has_key ns' ''ok'' \<and> has_key ns' ''bar'') \<and>
   add_properties empty_ns [(''self'', PInt 1)] = (Inl TypeError, empty_ns)"
proof -
  note t1 = add_properties_all_or_nothing [of empty_ns bad_batch bad_batch]
  note t2 = add_properties_all_or_nothing [of empty_ns good_batch good_batch]
  note t3 = add_properties_all_or_nothing [of empty_ns "[(''self'', PInt 1)]"]
  have sel2: "(case map_of good_batch ''properties'' of Some p \<Rightarrow> p | None \<Rightarrow> PDict good_batch)
                = PDict good_batch"
    by (simp add: good_batch_def)
  have call2: "\<not> has_key empty_ns ''add_properties''" "\<not> kw_clash [''self''] good_batch"
    by (simp_all add: empty_ns_def has_key_def kw_clash_def good_batch_def)
  have f: "fst (add_properties empty_ns bad_batch) = Inl (ConfigPropertyBadName ''!bad'')"
    by (simp add: add_properties_def bad_batch_def empty_ns_def name_eval_defs has_key_def
        ConfigPropertyRecordExt_init_def kw_clash_def)
  with t1 [THEN conjunct1] have u: "snd (add_properties empty_ns bad_batch) = empty_ns"
    by blast
  have sel1: "(case map_of bad_batch ''properties'' of Some p \<Rightarrow> p | None \<Rightarrow> PDict bad_batch)
                = PDict bad_batch"
    by (simp add: bad_batch_def)
  from t1 [THEN conjunct2, THEN conjunct2] sel1 bad_batch_fails
  obtain e where "add_properties empty_ns bad_batch = (Inl e, empty_ns)" by blast
  with f u have a: "add_properties empty_ns bad_batch = (Inl (ConfigPropertyBadName ''!bad''), empty_ns)"
    by simp
  from t2 [THEN conjunct2, THEN conjunct2] sel2 good_batch_ok call2
  obtain rtn ns' where "add_properties empty_ns good_batch = (Inr rtn, ns')"
    and "\<forall>k. has_key ns' k = (has_key empty_ns k \<or> k \<in> fst ` set good_batch)" by blast
  then have b: "\<exists>rtn ns'. add_properties empty_ns good_batch = (Inr rtn, ns') \<and>
      has_key ns' ''ok'' \<and> has_key ns' ''bar''"
    by (simp add: good_batch_def)
  have c: "add_properties empty_ns [(''self'', PInt 1)] = (Inl TypeError, empty_ns)"
    using t3 [THEN conjunct2, THEN conjunct1] by (simp add: kw_clash_def)
  from a b c show ?thesis by simp
qed


end
